theory Spec2Isabelle
  imports Main "HOL-Library.Word"
begin

unbundle bit_operations_syntax

section \<open>Data model\<close>

text \<open>
  The module \<^verbatim>\<open>SUPer/pgraphics.py\<close> holds the run-length codec of the palette
  bitmaps of a subtitle stream: \<^verbatim>\<open>PGraphics.encode_rle\<close>,
  \<^verbatim>\<open>PGraphics.decode_rle\<close> and the adapter \<^verbatim>\<open>PGraphics.bitmap_to_ods\<close>.

  A \<^verbatim>\<open>bytes\<close> or \<^verbatim>\<open>bytearray\<close> object is a list of 8-bit words. Python
  integers are \<open>int\<close>; positions and lengths, which the code only ever counts upwards
  from 0 or 1, are \<open>nat\<close>.
\<close>

type_synonym byte = "8 word"

text \<open>The exceptions the modelled code can raise.\<close>

datatype error = AssertionError | IndexError | ValueError | ZeroDivisionError

text \<open>
  A numpy array: its element type, its shape and its elements in row-major order (what
  \<^verbatim>\<open>np.ravel\<close> returns). The elements are integers; of the floating-point arrays only
  the empty ones occur, which \<^verbatim>\<open>np.asarray\<close> makes of a list without elements.
\<close>

datatype dtype = UInt8 | Int8 | UInt16 | Int16 | UInt32 | Int32 | UInt64 | Int64 | Float64

record ndarray =
  dtype :: dtype
  shape :: "nat list"
  flat :: "int list"

text \<open>The least and the greatest value of an integer element type.\<close>

fun dtype_range :: "dtype \<Rightarrow> (int \<times> int) option" where
  "dtype_range UInt8 = Some (0, 2 ^ 8 - 1)"
| "dtype_range Int8 = Some (- (2 ^ 7), 2 ^ 7 - 1)"
| "dtype_range UInt16 = Some (0, 2 ^ 16 - 1)"
| "dtype_range Int16 = Some (- (2 ^ 15), 2 ^ 15 - 1)"
| "dtype_range UInt32 = Some (0, 2 ^ 32 - 1)"
| "dtype_range Int32 = Some (- (2 ^ 31), 2 ^ 31 - 1)"
| "dtype_range UInt64 = Some (0, 2 ^ 64 - 1)"
| "dtype_range Int64 = Some (- (2 ^ 63), 2 ^ 63 - 1)"
| "dtype_range Float64 = None"

text \<open>
  An array is well formed when it has as many elements as its shape says and each
  element is a value of its element type.
\<close>

definition wf_ndarray :: "ndarray \<Rightarrow> bool" where
  "wf_ndarray a =
     (length (flat a) = prod_list (shape a) \<and>
      (case dtype_range (dtype a) of
         Some (lo, hi) \<Rightarrow> list_all (\<lambda>v. lo \<le> v \<and> v \<le> hi) (flat a)
       | None \<Rightarrow> flat a = []))"

text \<open>\<^verbatim>\<open>np.squeeze\<close> drops every axis of length one; the elements stay.\<close>

definition squeeze :: "ndarray \<Rightarrow> ndarray" where
  "squeeze a = a\<lparr>shape := filter (\<lambda>n. n \<noteq> 1) (shape a)\<rparr>"

definition ravel :: "ndarray \<Rightarrow> int list" where
  "ravel a = flat a"

text \<open>Indexing the shape tuple: out of range raises \<^verbatim>\<open>IndexError\<close>.\<close>

definition shape_at :: "nat list \<Rightarrow> nat \<Rightarrow> error + nat" where
  "shape_at shp n = (if n < length shp then Inr (shp ! n) else Inl IndexError)"

text \<open>
  \<^verbatim>\<open>bytearray(xs)\<close> of a list of integers raises \<^verbatim>\<open>ValueError\<close> unless each is in
  \<^verbatim>\<open>range(0, 256)\<close>.
\<close>

definition bytearray :: "int list \<Rightarrow> error + byte list" where
  "bytearray xs =
     (if list_all (\<lambda>x. 0 \<le> x \<and> x < 256) xs then Inr (map word_of_int xs)
      else Inl ValueError)"

text \<open>The first \<open>r\<close> rows of width \<open>w\<close> of a row-major element list.\<close>

definition rows_upto :: "int list \<Rightarrow> nat \<Rightarrow> nat \<Rightarrow> int list list" where
  "rows_upto fp w r = map (\<lambda>r. take w (drop (r * w) fp)) [0..<r]"

text \<open>
  \<^verbatim>\<open>np.asarray\<close> of a list of rows of Python integers, as numpy 1.24 and later do it: no
  row gives the empty array of shape \<open>(0,)\<close>; rows of one length \<open>n\<close> give an array of
  shape \<open>(rows, n)\<close>, of the default integer type \<^verbatim>\<open>int64\<close>, or of \<^verbatim>\<open>float64\<close> when the
  rows hold no element; rows of unequal lengths raise \<^verbatim>\<open>ValueError\<close> (an inhomogeneous
  shape).
\<close>

definition asarray :: "int list list \<Rightarrow> error + ndarray" where
  "asarray rows =
     (case rows of
        [] \<Rightarrow> Inr \<lparr>dtype = Float64, shape = [0], flat = []\<rparr>
      | r # rs \<Rightarrow>
          if list_all (\<lambda>x. length x = length r) rs
          then Inr \<lparr>dtype = (if length r = 0 then Float64 else Int64),
                    shape = [Suc (length rs), length r], flat = concat (r # rs)\<rparr>
          else Inl ValueError)"

section \<open>The encoder\<close>

text \<open>
  The inner \<^verbatim>\<open>for k in range(1, 16384)\<close> loop of \<^verbatim>\<open>encode_rle\<close>, entered at \<open>k\<close>.
  It returns the value \<open>k\<close> has when the loop is left and whether
  \<^verbatim>\<open>insert_line_end\<close> was set (the flag is \<^verbatim>\<open>False\<close> whenever the loop is entered).
  When the range is exhausted, \<open>k\<close> keeps its last value 16383. The width
  \<^verbatim>\<open>_bitmap.shape[1]\<close> is looked up in each pass, as the code does.
\<close>

function scan_run :: "int list \<Rightarrow> nat list \<Rightarrow> nat \<Rightarrow> nat \<Rightarrow> error + (nat \<times> bool)" where
  "scan_run fp shp i k =
     (case shape_at shp 1 of
        Inl e \<Rightarrow> Inl e
      | Inr w \<Rightarrow>
          if w = 0 then Inl ZeroDivisionError
          else if w \<le> i mod w + k then Inr (k, True)
          else if length fp \<le> i + k then Inl IndexError
          else if fp ! (i + k) \<noteq> fp ! i then Inr (k, False)
          else if k + 1 < 16384 then scan_run fp shp i (k + 1)
          else Inr (k, False))"
  by pat_completeness auto
termination
  by (relation "measure (\<lambda>(fp, shp, i, k). 16384 - k)") auto

declare scan_run.simps [simp del]

text \<open>The code emitted for a run of \<open>k\<close> pixels of value \<open>v\<close>.\<close>

definition emit_run :: "int \<Rightarrow> nat \<Rightarrow> error + byte list" where
  "emit_run v k =
     (if v \<noteq> 0 then
        (if k < 3 then bytearray (replicate k v)
         else if k \<le> 63 then bytearray [0, 0x80 OR int k, v]
         else bytearray [0, 0xC0 OR drop_bit 8 (int k), int k AND 0xFF, v])
      else
        (if k \<le> 63 then bytearray [0, int k]
         else bytearray [0, 0x40 OR drop_bit 8 (int k), int k AND 0xFF]))"

text \<open>The end-of-line marker.\<close>

definition line_end :: "bool \<Rightarrow> byte list" where
  "line_end insert_line_end = (if insert_line_end then [0, 0] else [])"

text \<open>
  The \<^verbatim>\<open>while i < _fp.size\<close> loop, entered at position \<open>i\<close> with the bytes emitted so
  far.
\<close>

function encode_loop :: "int list \<Rightarrow> nat list \<Rightarrow> nat \<Rightarrow> byte list \<Rightarrow> error + byte list" where
  "encode_loop fp shp i rle_data =
     (if i < length fp then
        (case scan_run fp shp i 1 of
           Inl e \<Rightarrow> Inl e
         | Inr (k, insert_line_end) \<Rightarrow>
             (case emit_run (fp ! i) k of
                Inl e \<Rightarrow> Inl e
              | Inr code \<Rightarrow>
                  encode_loop fp shp (i + k) (rle_data @ code @ line_end insert_line_end)))
      else Inr rle_data)"
  by pat_completeness auto
termination
proof (relation "measure (\<lambda>(fp, shp, i, rle_data). length fp - i)")
  show "wf (measure (\<lambda>(fp, shp, i, rle_data). length fp - i))"
    by simp
next
  fix fp :: "int list" and shp :: "nat list" and i :: nat and rle_data :: "byte list"
    and x2 :: "nat \<times> bool" and k :: nat and insert_line_end :: bool and code :: "byte list"
  assume less: "i < length fp" and scan: "scan_run fp shp i 1 = Inr x2"
    and x2: "(k, insert_line_end) = x2"
  have "scan_run fp shp i j = Inr (k', b) \<Longrightarrow> j \<le> k'" for j k' b
  proof (induction fp shp i j rule: scan_run.induct)
    case (1 fp shp i j)
    then show ?case
      by (subst (asm) (2) scan_run.simps)
        (auto split: sum.splits if_splits)
  qed
  with scan x2 have "1 \<le> k"
    by metis
  with less show "((fp, shp, i + k, rle_data @ code @ line_end insert_line_end),
      (fp, shp, i, rle_data)) \<in> measure (\<lambda>(fp, shp, i, rle_data). length fp - i)"
    by simp
qed

declare encode_loop.simps [simp del]

definition encode_rle :: "ndarray \<Rightarrow> error + byte list" where
  "encode_rle bitmap =
     (let bitmap' = squeeze bitmap;
          fp = ravel bitmap'
      in encode_loop fp (shape bitmap') 0 [])"

text \<open>
  \<^verbatim>\<open>bitmap_to_ods\<close>, up to its call of \<^verbatim>\<open>ODS.from_scratch\<close>, which belongs to the
  module \<^verbatim>\<open>segments\<close> and is a parameter here. The keyword argument \<^verbatim>\<open>o_vn\<close>
  defaults to 0.
\<close>

definition bitmap_to_ods ::
  "(int \<Rightarrow> int \<Rightarrow> nat \<Rightarrow> nat \<Rightarrow> byte list \<Rightarrow> 'ods) \<Rightarrow> ndarray \<Rightarrow> int \<Rightarrow> int option \<Rightarrow> error + 'ods"
where
  "bitmap_to_ods from_scratch bitmap oid o_vn_kw =
     (if dtype bitmap \<noteq> UInt8 then Inl AssertionError
      else
        (case shape bitmap of
           [height, width] \<Rightarrow>
             (let o_vn = (case o_vn_kw of None \<Rightarrow> 0 | Some v \<Rightarrow> v) in
              case encode_rle bitmap of
                Inl e \<Rightarrow> Inl e
              | Inr data \<Rightarrow> Inr (from_scratch oid o_vn width height data))
         | _ \<Rightarrow> Inl ValueError))"

section \<open>The decoder\<close>

datatype RLEDecoderState = NEED_MORE | NEW_CODE | SMALL_TSP | LARGE_TSP | SMALL_CCO | LARGE_CCO

text \<open>
  The enumeration gives \<^verbatim>\<open>NEED_MORE\<close> the value -2, \<^verbatim>\<open>NEW_CODE\<close> -1 and the four run
  categories 0 to 3. \<^verbatim>\<open>RLEDecoderState(byte >> 6)\<close> looks a state up by its value: the two
  top bits of a byte are one of 0, 1, 2 and 3 (lemma \<open>byte_top\<close>), so the lookup finds a run
  category and never raises.
\<close>

definition RLEDecoderState_of :: "byte \<Rightarrow> RLEDecoderState" where
  "RLEDecoderState_of v =
     (if v = 0 then SMALL_TSP else if v = 1 then LARGE_TSP
      else if v = 2 then SMALL_CCO else LARGE_CCO)"

text \<open>The variables of the decoding loop.\<close>

record decoder =
  plane2d :: "int list list"
  line_l :: "int list"
  decoder_state :: RLEDecoderState
  tmp :: int

definition decoder_init :: decoder where
  "decoder_init = \<lparr>plane2d = [], line_l = [], decoder_state = NEW_CODE, tmp = 0\<rparr>"

text \<open>
  One pass of the \<^verbatim>\<open>for byte in rle_data\<close> loop. No branch of the code handles the
  state \<^verbatim>\<open>SMALL_TSP\<close> at the head of the loop: the byte is skipped. A list times a
  negative number is the empty list.
\<close>

definition decode_byte :: "decoder \<Rightarrow> byte \<Rightarrow> decoder" where
  "decode_byte d byte =
     (case decoder_state d of
        NEW_CODE \<Rightarrow>
          if uint byte > 0 then d\<lparr>line_l := line_l d @ [uint byte]\<rparr>
          else d\<lparr>decoder_state := NEED_MORE\<rparr>
      | NEED_MORE \<Rightarrow>
          if uint byte = 0
          then d\<lparr>plane2d := plane2d d @ [line_l d], line_l := [], decoder_state := NEW_CODE\<rparr>
          else
            (let st = RLEDecoderState_of (drop_bit 6 byte);
                 t = uint (byte AND 0x3F)
             in if st = SMALL_TSP
                then d\<lparr>line_l := line_l d @ replicate (nat t) 0,
                       decoder_state := NEW_CODE, tmp := t\<rparr>
                else d\<lparr>decoder_state := st, tmp := t\<rparr>)
      | LARGE_TSP \<Rightarrow>
          (let t = push_bit 8 (tmp d) + uint byte
           in d\<lparr>line_l := line_l d @ replicate (nat t) 0, decoder_state := NEW_CODE, tmp := t\<rparr>)
      | SMALL_CCO \<Rightarrow>
          d\<lparr>line_l := line_l d @ replicate (nat (tmp d)) (uint byte), decoder_state := NEW_CODE\<rparr>
      | LARGE_CCO \<Rightarrow>
          if tmp d \<ge> 0 then d\<lparr>tmp := (push_bit 8 (tmp d) + uint byte) * - 1\<rparr>
          else d\<lparr>line_l := line_l d @ replicate (nat (- 1 * tmp d)) (uint byte),
                 decoder_state := NEW_CODE\<rparr>
      | SMALL_TSP \<Rightarrow> d)"

primrec decode_loop :: "decoder \<Rightarrow> byte list \<Rightarrow> decoder" where
  "decode_loop d [] = d"
| "decode_loop d (byte # rle_data) = decode_loop (decode_byte d byte) rle_data"

text \<open>
  Lines 103 to 145 of \<^verbatim>\<open>decode_rle\<close>: the automaton run over a byte string, and
  \<^verbatim>\<open>np.asarray\<close> of the list \<^verbatim>\<open>plane2d\<close> of rows it leaves.
\<close>

definition decode_stream :: "byte list \<Rightarrow> error + ndarray" where
  "decode_stream rle_data = asarray (plane2d (decode_loop decoder_init rle_data))"

text \<open>
  Modelled from the spec: the class \<^verbatim>\<open>ODS\<close> of the module \<^verbatim>\<open>segments\<close>, which is
  not among the sources. The decoder reads two fields of a segment record, its object
  identifier and its payload.
\<close>

record ODS =
  o_id :: int
  data :: "byte list"

text \<open>
  The argument of \<^verbatim>\<open>decode_rle\<close>: raw bytes, one segment or a list of segments. The
  function first wraps a single segment into a list, then joins the payloads of a list,
  filtered by \<^verbatim>\<open>o_id\<close> when one is given; after the first step no single segment is left,
  and raw bytes pass both steps unchanged.
\<close>

datatype rle_input = Bytes "byte list" | Segment ODS | Segments "ODS list"

definition decode_rle :: "rle_input \<Rightarrow> int option \<Rightarrow> error + ndarray" where
  "decode_rle rle_data oid =
     (let rle_data1 = (case rle_data of Segment s \<Rightarrow> Segments [s] | _ \<Rightarrow> rle_data);
          rle_data2 =
            (case rle_data1 of
               Segments l \<Rightarrow>
                 (case oid of
                    Some n \<Rightarrow> concat (map data (filter (\<lambda>x. n = o_id x) l))
                  | None \<Rightarrow> concat (map data l))
             | Segment s \<Rightarrow> data s
             | Bytes bs \<Rightarrow> bs)
      in decode_stream rle_data2)"

section \<open>Observing the encoder and the decoder\<close>

text \<open>
  The heads of the \<^verbatim>\<open>while\<close> loop of \<^verbatim>\<open>encode_rle\<close>: the loop starts at position 0 with
  no byte emitted, and each pass that succeeds leads from one head to the next.
\<close>

inductive reaches :: "int list \<Rightarrow> nat list \<Rightarrow> nat \<Rightarrow> byte list \<Rightarrow> bool"
  for fp :: "int list" and shp :: "nat list" where
  start: "reaches fp shp 0 []"
| pass: "reaches fp shp i rle_data \<Longrightarrow> i < length fp \<Longrightarrow>
     scan_run fp shp i 1 = Inr (k, insert_line_end) \<Longrightarrow> emit_run (fp ! i) k = Inr code \<Longrightarrow>
     reaches fp shp (i + k) (rle_data @ code @ line_end insert_line_end)"

text \<open>
  The rows that end-of-line markers close while the automaton runs from \<open>d\<close> over a
  byte string. A marker is complete when a zero byte arrives in state \<^verbatim>\<open>NEED_MORE\<close>;
  the row it closes is the line buffer of that moment.
\<close>

primrec closed_rows :: "decoder \<Rightarrow> byte list \<Rightarrow> int list list" where
  "closed_rows d [] = []"
| "closed_rows d (byte # rle_data) =
     (if decoder_state d = NEED_MORE \<and> uint byte = 0 then [line_l d] else []) @
     closed_rows (decode_byte d byte) rle_data"

text \<open>A byte string holds two zero bytes in a row.\<close>

fun double_zero :: "byte list \<Rightarrow> bool" where
  "double_zero (x # y # ys) = (if x = 0 \<and> y = 0 then True else double_zero (y # ys))"
| "double_zero [x] = False"
| "double_zero [] = False"

section \<open>Bytes and bit operations\<close>

lemma push_or_low:
  fixes a c :: int
  assumes "0 \<le> a" "a < 2 ^ n"
  shows "push_bit n c OR a = push_bit n c + a"
proof -
  have a: "take_bit n a = a"
    using assms by (simp add: take_bit_int_eq_self)
  have "push_bit n c AND take_bit n a = 0"
    by (auto simp: bit_eq_iff bit_simps)
  then have "push_bit n c + take_bit n a = push_bit n c OR take_bit n a"
    by (rule disjunctive_add_eq_or)
  with a show ?thesis by simp
qed

lemma or_0x80: "k \<le> 63 \<Longrightarrow> (0x80::int) OR int k = 128 + int k"
  using push_or_low[of "int k" 6 2] by simp

lemma or_0xC0: "k < 16384 \<Longrightarrow> (0xC0::int) OR drop_bit 8 (int k) = 192 + int (k div 256)"
proof -
  assume "k < 16384"
  then have "k div 256 < 64" by simp
  moreover have "drop_bit 8 (int k) = int (k div 256)"
    by (simp add: drop_bit_eq_div zdiv_int)
  ultimately show ?thesis
    using push_or_low[of "int (k div 256)" 6 3] by simp
qed

lemma or_0x40: "k < 16384 \<Longrightarrow> (0x40::int) OR drop_bit 8 (int k) = 64 + int (k div 256)"
proof -
  assume "k < 16384"
  then have "k div 256 < 64" by simp
  moreover have "drop_bit 8 (int k) = int (k div 256)"
    by (simp add: drop_bit_eq_div zdiv_int)
  ultimately show ?thesis
    using push_or_low[of "int (k div 256)" 6 1] by simp
qed

lemma and_0xFF: "int k AND 0xFF = int (k mod 256)"
proof -
  have "int k AND mask 8 = int k mod 2 ^ 8"
    by (simp only: take_bit_eq_mask[symmetric] take_bit_eq_mod)
  then show ?thesis by (simp add: mask_numeral zmod_int)
qed

lemma uint_top: "uint (drop_bit 6 (b::8 word)) = uint b div 64"
  by (simp add: drop_bit_eq_div uint_div)

lemma uint_low: "uint ((b::8 word) AND 0x3F) = uint b mod 64"
proof -
  have "b AND mask 6 = word_of_int (uint b mod 2 ^ 6)"
    by (rule and_mask_mod_2p)
  then have "uint (b AND mask 6) = (uint b mod 2 ^ 6) mod 2 ^ 8"
    by (simp add: uint_word_of_int)
  moreover have "0 \<le> uint b mod 64" "uint b mod 64 < 64" by simp_all
  ultimately show ?thesis by (simp add: mask_numeral)
qed

lemma byte_of_int: "0 \<le> x \<Longrightarrow> x < 256 \<Longrightarrow> uint (word_of_int x :: 8 word) = x"
  by (simp add: uint_word_of_int)

lemma top_eq: "(drop_bit 6 (b::8 word) = 3) = (uint b div 64 = 3)"
      "(drop_bit 6 (b::8 word) = 2) = (uint b div 64 = 2)"
      "(drop_bit 6 (b::8 word) = 1) = (uint b div 64 = 1)"
      "(drop_bit 6 (b::8 word) = 0) = (uint b div 64 = 0)"
  by (simp_all add: word_uint_eq_iff uint_top)

lemma byte_top: "drop_bit 6 (b::8 word) = 0 \<or> drop_bit 6 b = 1 \<or> drop_bit 6 b = 2 \<or> drop_bit 6 b = 3"
proof -
  have "uint b < 256" using uint_bounded[of b] by simp
  moreover have "0 \<le> uint b" by simp
  ultimately have "uint b div 64 = 0 \<or> uint b div 64 = 1 \<or> uint b div 64 = 2 \<or> uint b div 64 = 3" by presburger
  then show ?thesis
    by (simp only: top_eq)
qed

section \<open>The decoder, byte by byte\<close>

lemma state_of_top:
  "RLEDecoderState_of (drop_bit 6 b) =
     (if uint b div 64 = 0 then SMALL_TSP else if uint b div 64 = 1 then LARGE_TSP
      else if uint b div 64 = 2 then SMALL_CCO else LARGE_CCO)"
  by (simp add: RLEDecoderState_of_def top_eq)

lemma decode_byte_NEW_CODE:
  "decoder_state d = NEW_CODE \<Longrightarrow>
   decode_byte d b =
     (if uint b > 0 then d\<lparr>line_l := line_l d @ [uint b]\<rparr> else d\<lparr>decoder_state := NEED_MORE\<rparr>)"
  by (simp add: decode_byte_def)

lemma decode_byte_NEED_MORE:
  "decoder_state d = NEED_MORE \<Longrightarrow>
   decode_byte d b =
     (if uint b = 0
      then d\<lparr>plane2d := plane2d d @ [line_l d], line_l := [], decoder_state := NEW_CODE\<rparr>
      else if uint b div 64 = 0
      then d\<lparr>line_l := line_l d @ replicate (nat (uint b mod 64)) 0,
             decoder_state := NEW_CODE, tmp := uint b mod 64\<rparr>
      else d\<lparr>decoder_state :=
               (if uint b div 64 = 1 then LARGE_TSP
                else if uint b div 64 = 2 then SMALL_CCO else LARGE_CCO),
             tmp := uint b mod 64\<rparr>)"
  by (simp add: decode_byte_def state_of_top uint_low Let_def)

lemma decode_byte_LARGE_TSP:
  "decoder_state d = LARGE_TSP \<Longrightarrow>
   decode_byte d b =
     d\<lparr>line_l := line_l d @ replicate (nat (256 * tmp d + uint b)) 0,
       decoder_state := NEW_CODE, tmp := 256 * tmp d + uint b\<rparr>"
  by (simp add: decode_byte_def Let_def push_bit_eq_mult mult.commute)

lemma decode_byte_SMALL_CCO:
  "decoder_state d = SMALL_CCO \<Longrightarrow>
   decode_byte d b =
     d\<lparr>line_l := line_l d @ replicate (nat (tmp d)) (uint b), decoder_state := NEW_CODE\<rparr>"
  by (simp add: decode_byte_def)

lemma decode_byte_LARGE_CCO:
  "decoder_state d = LARGE_CCO \<Longrightarrow>
   decode_byte d b =
     (if tmp d \<ge> 0 then d\<lparr>tmp := - (256 * tmp d + uint b)\<rparr>
      else d\<lparr>line_l := line_l d @ replicate (nat (- tmp d)) (uint b),
             decoder_state := NEW_CODE\<rparr>)"
  by (simp add: decode_byte_def push_bit_eq_mult mult.commute)

lemma decode_loop_append:
  "decode_loop d (xs @ ys) = decode_loop (decode_loop d xs) ys"
  by (induction xs arbitrary: d) simp_all

lemma decode_line_end:
  "decoder_state d = NEW_CODE \<Longrightarrow>
   decode_loop d [0, 0] = d\<lparr>plane2d := plane2d d @ [line_l d], line_l := []\<rparr>"
  by (simp add: decode_byte_NEW_CODE decode_byte_NEED_MORE)

lemma emit_run_color_literal:
  assumes "v \<noteq> 0" "0 \<le> v" "v < 256" "k < 3"
  shows "emit_run v k = Inr (replicate k (word_of_int v))"
  using assms by (simp add: emit_run_def bytearray_def list_all_iff)

lemma emit_run_color_short:
  assumes "v \<noteq> 0" "0 \<le> v" "v < 256" "3 \<le> k" "k \<le> 63"
  shows "emit_run v k = Inr [0, word_of_int (128 + int k), word_of_int v]"
  using assms by (simp add: emit_run_def bytearray_def or_0x80)

lemma emit_run_color_long:
  assumes "v \<noteq> 0" "0 \<le> v" "v < 256" "63 < k" "k < 16384"
  shows "emit_run v k =
    Inr [0, word_of_int (192 + int (k div 256)), word_of_int (int (k mod 256)), word_of_int v]"
  using assms by (simp add: emit_run_def bytearray_def or_0xC0 and_0xFF)

lemma emit_run_transparent_short:
  assumes "k \<le> 63"
  shows "emit_run 0 k = Inr [0, word_of_int (int k)]"
  using assms by (simp add: emit_run_def bytearray_def)

lemma emit_run_transparent_long:
  assumes "63 < k" "k < 16384"
  shows "emit_run 0 k =
    Inr [0, word_of_int (64 + int (k div 256)), word_of_int (int (k mod 256))]"
  using assms by (simp add: emit_run_def bytearray_def or_0x40 and_0xFF)

lemma divmod64:
  fixes a :: int
  assumes "0 \<le> a" "a < 64"
  shows "(64 + a) div 64 = 1" "(64 + a) mod 64 = a"
    "(128 + a) div 64 = 2" "(128 + a) mod 64 = a"
    "(192 + a) div 64 = 3" "(192 + a) mod 64 = a"
    "a mod 64 = a"
  using assms
  by (simp_all add: int_div_pos_eq[where r = a] int_mod_pos_eq[where r = a])

lemma decode_literal:
  assumes "decoder_state d = NEW_CODE" "0 < uint b"
  shows "decode_loop d [b] = d\<lparr>line_l := line_l d @ [uint b]\<rparr>"
  using assms by (simp add: decode_byte_NEW_CODE)

lemma decode_short_tsp:
  assumes "decoder_state d = NEW_CODE" "uint b = int k" "1 \<le> k" "k \<le> 63"
  shows "decode_loop d [0, b] = d\<lparr>line_l := line_l d @ replicate k 0, tmp := int k\<rparr>"
  using assms by (simp add: decode_byte_NEW_CODE decode_byte_NEED_MORE)

lemma decode_long_tsp:
  assumes "decoder_state d = NEW_CODE" "uint b1 = 64 + int hi" "hi < 64" "uint b2 = int lo"
  shows "decode_loop d [0, b1, b2] =
    d\<lparr>line_l := line_l d @ replicate (256 * hi + lo) 0, tmp := int (256 * hi + lo)\<rparr>"
proof -
  have q: "(64 + int hi) div 64 = 1" "(64 + int hi) mod 64 = int hi"
    "int hi mod 64 = int hi"
    using assms(3) by (simp_all add: divmod64)
  have n: "nat (256 * int hi + int lo) = 256 * hi + lo"
    by (simp add: nat_add_distrib nat_mult_distrib)
  show ?thesis
    using assms(1)
    by (simp add: decode_byte_NEW_CODE decode_byte_NEED_MORE decode_byte_LARGE_TSP assms(2,4) q n)
qed

lemma decode_short_cco:
  assumes "decoder_state d = NEW_CODE" "uint b = 128 + int k" "k \<le> 63"
  shows "decode_loop d [0, b, c] =
    d\<lparr>line_l := line_l d @ replicate k (uint c), tmp := int k\<rparr>"
proof -
  have q: "(128 + int k) div 64 = 2" "(128 + int k) mod 64 = int k"
    "int k mod 64 = int k"
    using assms(3) by (simp_all add: divmod64)
  show ?thesis
    using assms(1)
    by (simp add: decode_byte_NEW_CODE decode_byte_NEED_MORE decode_byte_SMALL_CCO assms(2) q)
qed

lemma decode_long_cco:
  assumes "decoder_state d = NEW_CODE" "uint b1 = 192 + int hi" "hi < 64" "uint b2 = int lo"
    and "0 < 256 * hi + lo"
  shows "decode_loop d [0, b1, b2, c] =
    d\<lparr>line_l := line_l d @ replicate (256 * hi + lo) (uint c), tmp := - int (256 * hi + lo)\<rparr>"
proof -
  have q: "(192 + int hi) div 64 = 3" "(192 + int hi) mod 64 = int hi"
    "int hi mod 64 = int hi"
    using assms(3) by (simp_all add: divmod64)
  have n: "nat (256 * int hi + int lo) = 256 * hi + lo"
    by (simp add: nat_add_distrib nat_mult_distrib)
  have p: "\<not> 256 * int hi + int lo \<le> 0"
    using assms(5) by linarith
  show ?thesis
    using assms(1) p
    by (simp add: decode_byte_NEW_CODE decode_byte_NEED_MORE decode_byte_LARGE_CCO assms(2,4) q n)
qed

section \<open>Decoding what the encoder emits\<close>

lemma split_256: "256 * (k div 256) + k mod 256 = (k::nat)"
  by simp

lemma decode_emit_run:
  assumes st: "decoder_state d = NEW_CODE"
    and k: "1 \<le> k" "k < 16384" and v: "0 \<le> v" "v < 256"
  shows "\<exists>code t. emit_run v k = Inr code \<and>
           decode_loop d code = d\<lparr>line_l := line_l d @ replicate k v, tmp := t\<rparr>"
proof -
  define c :: byte where "c = word_of_int v"
  define lo :: byte where "lo = word_of_int (int (k mod 256))"
  have uc: "uint c = v"
    unfolding c_def using v by (rule byte_of_int)
  have ulo: "uint lo = int (k mod 256)"
    unfolding lo_def by (rule byte_of_int) simp_all
  have hi: "k div 256 < 64"
    using k by simp
  have pos: "0 < 256 * (k div 256) + k mod 256"
    using k by (simp only: split_256)
  show ?thesis
  proof (cases "v = 0")
    case True
    show ?thesis
    proof (cases "k \<le> 63")
      case short: True
      define b :: byte where "b = word_of_int (int k)"
      have ub: "uint b = int k"
        unfolding b_def by (rule byte_of_int) (use short in simp_all)
      have "emit_run v k = Inr [0, b]"
        unfolding b_def True by (rule emit_run_transparent_short) fact
      moreover have "decode_loop d [0, b] = d\<lparr>line_l := line_l d @ replicate k v, tmp := int k\<rparr>"
        unfolding True by (rule decode_short_tsp) fact+
      ultimately show ?thesis by blast
    next
      case long: False
      define b :: byte where "b = word_of_int (64 + int (k div 256))"
      have ub: "uint b = 64 + int (k div 256)"
        unfolding b_def by (rule byte_of_int) (use hi in simp_all)
      have "emit_run v k = Inr [0, b, lo]"
        unfolding b_def lo_def True by (rule emit_run_transparent_long) (use long k in simp_all)
      moreover have "decode_loop d [0, b, lo] =
          d\<lparr>line_l := line_l d @ replicate (256 * (k div 256) + k mod 256) 0,
            tmp := int (256 * (k div 256) + k mod 256)\<rparr>"
        by (rule decode_long_tsp) fact+
      ultimately show ?thesis
        unfolding split_256 True by blast
    qed
  next
    case False
    consider (lit) "k < 3" | (short) "3 \<le> k" "k \<le> 63" | (long) "63 < k"
      by linarith
    then show ?thesis
    proof cases
      case lit
      have e: "emit_run v k = Inr (replicate k c)"
        unfolding c_def by (rule emit_run_color_literal) fact+
      have cpos: "0 < uint c"
        using uc False v by simp
      have 1: "decode_loop d' [c] = d'\<lparr>line_l := line_l d' @ [v]\<rparr>"
        if "decoder_state d' = NEW_CODE" for d'
        using decode_literal[OF that cpos] by (simp add: uc)
      have "k = 1 \<or> k = 2" using k lit by linarith
      then have "decode_loop d (replicate k c) =
          d\<lparr>line_l := line_l d @ replicate k v, tmp := tmp d\<rparr>"
      proof
        assume "k = 1"
        then show ?thesis using 1[OF st] by simp
      next
        assume "k = 2"
        then have "decode_loop d (replicate k c) = decode_loop (decode_loop d [c]) [c]"
          by (simp add: numeral_2_eq_2)
        also have "\<dots> = decode_loop (d\<lparr>line_l := line_l d @ [v]\<rparr>) [c]"
          by (simp only: 1[OF st])
        also have "\<dots> = d\<lparr>line_l := line_l d @ [v, v]\<rparr>"
          using st by (subst 1) simp_all
        finally show ?thesis using \<open>k = 2\<close> by (simp add: numeral_2_eq_2)
      qed
      with e show ?thesis by blast
    next
      case short
      define b :: byte where "b = word_of_int (128 + int k)"
      have ub: "uint b = 128 + int k"
        unfolding b_def by (rule byte_of_int) (use short in simp_all)
      have "emit_run v k = Inr [0, b, c]"
        unfolding b_def c_def by (rule emit_run_color_short) fact+
      moreover have "decode_loop d [0, b, c] =
          d\<lparr>line_l := line_l d @ replicate k (uint c), tmp := int k\<rparr>"
        by (rule decode_short_cco) fact+
      ultimately show ?thesis
        unfolding uc by blast
    next
      case long
      define b :: byte where "b = word_of_int (192 + int (k div 256))"
      have ub: "uint b = 192 + int (k div 256)"
        unfolding b_def by (rule byte_of_int) (use hi in simp_all)
      have "emit_run v k = Inr [0, b, lo, c]"
        unfolding b_def lo_def c_def by (rule emit_run_color_long) fact+
      moreover have "decode_loop d [0, b, lo, c] =
          d\<lparr>line_l := line_l d @ replicate (256 * (k div 256) + k mod 256) (uint c),
            tmp := - int (256 * (k div 256) + k mod 256)\<rparr>"
        by (rule decode_long_cco) fact+
      ultimately show ?thesis
        unfolding split_256 uc by blast
    qed
  qed
qed

section \<open>The scan of a run\<close>

lemma in_row:
  assumes "c < w" "r * w + c < h * w" "c + k < w"
  shows "r * w + c + k < h * (w::nat)"
proof -
  have "r < h"
  proof (rule ccontr)
    assume "\<not> r < h"
    then have "h * w \<le> r * w" by simp
    with assms(2) show False by simp
  qed
  then have "Suc r * w \<le> h * w"
    by (simp only: mult_le_mono1 Suc_leI)
  with assms(3) show ?thesis by simp
qed

lemma row_end_le:
  assumes "r * w + c < h * w" "c + k \<le> w"
  shows "r * w + c + k \<le> h * (w::nat)"
proof -
  have "r < h"
  proof (rule ccontr)
    assume "\<not> r < h"
    then have "h * w \<le> r * w" by simp
    with assms(1) show False by simp
  qed
  then have "Suc r * w \<le> h * w"
    by (simp only: mult_le_mono1 Suc_leI)
  with assms(2) show ?thesis by simp
qed

lemma scan_run_spec:
  assumes "shape_at shp 1 = Inr w" "c < w" "length fp = h * w" "r * w + c < h * w"
    and "1 \<le> k0" "k0 < 16384" "c + k0 \<le> w"
    and "\<forall>j<k0. fp ! (r * w + c + j) = fp ! (r * w + c)"
  shows "\<exists>k b. scan_run fp shp (r * w + c) k0 = Inr (k, b) \<and> k0 \<le> k \<and> k < 16384 \<and>
           c + k \<le> w \<and> (b \<longleftrightarrow> c + k = w) \<and>
           (\<forall>j<k. fp ! (r * w + c + j) = fp ! (r * w + c)) \<and>
           (b \<or> k = 16383 \<or> fp ! (r * w + c + k) \<noteq> fp ! (r * w + c))"
  using assms
proof (induction "16384 - k0" arbitrary: k0 rule: less_induct)
  case less
  have w: "0 < w" using less.prems(2) by simp
  have m: "(r * w + c) mod w = c" using less.prems(2) by simp
  show ?case
  proof (cases "w \<le> c + k0")
    case True
    then have "scan_run fp shp (r * w + c) k0 = Inr (k0, True)"
      using less.prems(1) w m by (subst scan_run.simps) simp
    moreover have "c + k0 = w" using True less.prems(7) by simp
    ultimately show ?thesis using less.prems by auto
  next
    case False
    then have lt: "c + k0 < w" by simp
    have inb: "r * w + c + k0 < length fp"
      using in_row[OF less.prems(2) less.prems(4) lt] less.prems(3) by simp
    show ?thesis
    proof (cases "fp ! (r * w + c + k0) \<noteq> fp ! (r * w + c)")
      case True
      then have "scan_run fp shp (r * w + c) k0 = Inr (k0, False)"
        using less.prems(1) w m lt inb by (subst scan_run.simps) simp
      then show ?thesis using less.prems lt True by auto
    next
      case same: False
      show ?thesis
      proof (cases "k0 + 1 < 16384")
        case True
        have step: "scan_run fp shp (r * w + c) k0 = scan_run fp shp (r * w + c) (k0 + 1)"
          using less.prems(1) w m lt inb same True by (subst scan_run.simps) simp
        have all: "\<forall>j<k0 + 1. fp ! (r * w + c + j) = fp ! (r * w + c)"
          using less.prems(8) same by (auto simp: less_Suc_eq)
        have "\<exists>k b. scan_run fp shp (r * w + c) (k0 + 1) = Inr (k, b) \<and> k0 + 1 \<le> k \<and> k < 16384 \<and>
           c + k \<le> w \<and> (b \<longleftrightarrow> c + k = w) \<and>
           (\<forall>j<k. fp ! (r * w + c + j) = fp ! (r * w + c)) \<and>
           (b \<or> k = 16383 \<or> fp ! (r * w + c + k) \<noteq> fp ! (r * w + c))"
          by (rule less.hyps) (use less.prems True lt all in simp_all)
        then show ?thesis
          unfolding step by (metis add_leD1)
      next
        case False
        then have k16: "k0 = 16383" using less.prems(6) by simp
        have "scan_run fp shp (r * w + c) k0 = Inr (k0, False)"
          using less.prems(1) w m lt inb same False by (subst scan_run.simps) simp
        then show ?thesis using less.prems lt k16 by auto
      qed
    qed
  qed
qed

section \<open>The encoding loop against the decoder\<close>

lemma take_run:
  assumes "i + k \<le> length fp" "\<forall>j<k. fp ! (i + j) = x"
  shows "take k (drop i fp) = replicate k x"
  using assms by (intro nth_equalityI) auto

lemma row_extend:
  assumes "r * w + c + k \<le> length fp" "\<forall>j<k. fp ! (r * w + c + j) = x"
  shows "take c (drop (r * w) fp) @ replicate k x = take (c + k) (drop (r * w) fp)"
proof -
  have "take k (drop (r * w + c) fp) = replicate k x"
    using assms by (rule take_run)
  then show ?thesis
    by (simp add: take_add add.commute)
qed

lemma at_end:
  assumes "c < w" "r * w + c = h * (w::nat)"
  shows "r = h \<and> c = 0"
proof -
  have "(r * w + c) mod w = (h * w) mod w" using assms(2) by simp
  then have c: "c = 0" using assms(1) by simp
  with assms show ?thesis by simp
qed

lemma rows_upto_Suc: "rows_upto fp w (Suc r) = rows_upto fp w r @ [take w (drop (r * w) fp)]"
  by (simp add: rows_upto_def)

lemma encode_step:
  assumes shp: "shape_at shp 1 = Inr w" and len: "length fp = h * w"
    and vals: "\<forall>v\<in>set fp. 0 \<le> v \<and> v < 256"
    and c: "c < w" and lt: "r * w + c < h * w"
    and st: "decoder_state d = NEW_CODE"
    and pl: "plane2d d = rows_upto fp w r"
    and ln: "line_l d = take c (drop (r * w) fp)"
  shows "\<exists>bs r' c'.
           encode_loop fp shp (r * w + c) acc = encode_loop fp shp (r' * w + c') (acc @ bs) \<and>
           r * w + c < r' * w + c' \<and> c' < w \<and> r' * w + c' \<le> h * w \<and>
           decoder_state (decode_loop d bs) = NEW_CODE \<and>
           plane2d (decode_loop d bs) = rows_upto fp w r' \<and>
           line_l (decode_loop d bs) = take c' (drop (r' * w) fp)"
proof -
  let ?i = "r * w + c"
  have "\<exists>k b. scan_run fp shp ?i 1 = Inr (k, b) \<and> 1 \<le> k \<and> k < 16384 \<and>
         c + k \<le> w \<and> (b \<longleftrightarrow> c + k = w) \<and>
         (\<forall>j<k. fp ! (?i + j) = fp ! ?i) \<and>
         (b \<or> k = 16383 \<or> fp ! (?i + k) \<noteq> fp ! ?i)"
    by (rule scan_run_spec[OF shp c len lt]) (use c in simp_all)
  then obtain k b where scan: "scan_run fp shp ?i 1 = Inr (k, b)"
    and k: "1 \<le> k" "k < 16384" and ck: "c + k \<le> w" and b: "b \<longleftrightarrow> c + k = w"
    and run: "\<forall>j<k. fp ! (?i + j) = fp ! ?i"
    by blast
  have "fp ! ?i \<in> set fp" using lt len by simp
  then have v: "0 \<le> fp ! ?i" "fp ! ?i < 256" using vals by simp_all
  obtain code t where emit: "emit_run (fp ! ?i) k = Inr code"
    and dec: "decode_loop d code = d\<lparr>line_l := line_l d @ replicate k (fp ! ?i), tmp := t\<rparr>"
    using decode_emit_run[OF st k v] by blast
  have next_le: "?i + k \<le> h * w"
    using row_end_le[OF lt ck] .
  have "?i + k \<le> length fp"
    using next_le len by simp
  then have "take c (drop (r * w) fp) @ replicate k (fp ! ?i) = take (c + k) (drop (r * w) fp)"
    using run by (rule row_extend)
  then have row: "line_l d @ replicate k (fp ! ?i) = take (c + k) (drop (r * w) fp)"
    using ln by simp
  have i: "?i < length fp" using lt len by simp
  have unfold: "encode_loop fp shp ?i acc = encode_loop fp shp (?i + k) (acc @ code @ line_end b)"
    by (subst encode_loop.simps) (simp only: i scan emit if_True sum.case prod.case)
  define d1 where "d1 = d\<lparr>line_l := take (c + k) (drop (r * w) fp), tmp := t\<rparr>"
  have d1: "decode_loop d code = d1"
    using dec row by (simp add: d1_def)
  have d1s: "decoder_state d1 = NEW_CODE" "plane2d d1 = rows_upto fp w r"
    "line_l d1 = take (c + k) (drop (r * w) fp)"
    using st pl by (simp_all add: d1_def)
  show ?thesis
  proof (cases b)
    case False
    then have lt': "c + k < w" using b ck by simp
    have dd: "decode_loop d (code @ line_end b) = d1"
      using False d1 by (simp add: decode_loop_append line_end_def)
    have "encode_loop fp shp ?i acc = encode_loop fp shp (r * w + (c + k)) (acc @ (code @ line_end b))"
      using unfold by (simp add: add.assoc)
    moreover have "?i < r * w + (c + k)" using k by simp
    moreover have "r * w + (c + k) \<le> h * w" using next_le by simp
    ultimately show ?thesis
      using lt' dd d1s by blast
  next
    case True
    then have eq: "c + k = w" using b by simp
    have w: "0 < w" using c by simp
    have dd: "decode_loop d (code @ line_end b) =
        d1\<lparr>plane2d := plane2d d1 @ [line_l d1], line_l := []\<rparr>"
      using True d1 d1s(1) by (simp only: decode_loop_append line_end_def if_True decode_line_end)
    have p: "plane2d (decode_loop d (code @ line_end b)) = rows_upto fp w (Suc r)"
      unfolding dd using d1s eq by (simp add: rows_upto_Suc)
    have l: "line_l (decode_loop d (code @ line_end b)) = take 0 (drop (Suc r * w) fp)"
      unfolding dd by simp
    have s: "decoder_state (decode_loop d (code @ line_end b)) = NEW_CODE"
      unfolding dd using d1s by simp
    have i': "?i + k = Suc r * w + 0"
      using eq by simp
    have "encode_loop fp shp ?i acc = encode_loop fp shp (Suc r * w + 0) (acc @ (code @ line_end b))"
      using unfold unfolding i' .
    moreover have "?i < Suc r * w + 0" using k i' by linarith
    moreover have "Suc r * w + 0 \<le> h * w" using next_le i' by simp
    ultimately show ?thesis
      using w p l s by blast
  qed
qed

lemma encode_loop_decodes:
  assumes shp: "shape_at shp 1 = Inr w" and len: "length fp = h * w"
    and vals: "\<forall>v\<in>set fp. 0 \<le> v \<and> v < 256"
    and c: "c < w" and le: "r * w + c \<le> h * w"
    and st: "decoder_state d = NEW_CODE"
    and pl: "plane2d d = rows_upto fp w r"
    and ln: "line_l d = take c (drop (r * w) fp)"
  shows "\<exists>out. encode_loop fp shp (r * w + c) acc = Inr (acc @ out) \<and>
           decoder_state (decode_loop d out) = NEW_CODE \<and>
           plane2d (decode_loop d out) = rows_upto fp w h \<and>
           line_l (decode_loop d out) = []"
  using c le st pl ln
proof (induction "h * w - (r * w + c)" arbitrary: r c d acc rule: less_induct)
  case less
  let ?i = "r * w + c"
  show ?case
  proof (cases "?i < h * w")
    case False
    then have "?i = h * w" using less.prems(2) by simp
    then have "r = h \<and> c = 0" by (rule at_end[OF less.prems(1)])
    then have e: "r = h" "c = 0" by blast+
    have "\<not> ?i < length fp" using False len by simp
    then have "encode_loop fp shp ?i acc = Inr (acc @ [])"
      by (subst encode_loop.simps) (simp only: if_False append_Nil2)
    moreover have "decoder_state (decode_loop d []) = NEW_CODE"
      using less.prems(3) by simp
    moreover have "plane2d (decode_loop d []) = rows_upto fp w h"
      using less.prems(4) unfolding e by simp
    moreover have "line_l (decode_loop d []) = []"
      using less.prems(5) unfolding e by simp
    ultimately show ?thesis by blast
  next
    case True
    obtain bs r' c' where
      step: "encode_loop fp shp ?i acc = encode_loop fp shp (r' * w + c') (acc @ bs)"
      and gt: "?i < r' * w + c'" and c': "c' < w" and le': "r' * w + c' \<le> h * w"
      and st': "decoder_state (decode_loop d bs) = NEW_CODE"
      and pl': "plane2d (decode_loop d bs) = rows_upto fp w r'"
      and ln': "line_l (decode_loop d bs) = take c' (drop (r' * w) fp)"
      using encode_step[OF shp len vals less.prems(1) True less.prems(3,4,5), of acc] by blast
    have m: "h * w - (r' * w + c') < h * w - ?i"
      using gt True by linarith
    obtain out where
      o: "encode_loop fp shp (r' * w + c') (acc @ bs) = Inr ((acc @ bs) @ out)"
      and r: "decoder_state (decode_loop (decode_loop d bs) out) = NEW_CODE"
        "plane2d (decode_loop (decode_loop d bs) out) = rows_upto fp w h"
        "line_l (decode_loop (decode_loop d bs) out) = []"
      using less.hyps[OF m c' le' st' pl' ln', of "acc @ bs"] by blast
    have "encode_loop fp shp ?i acc = Inr (acc @ (bs @ out))"
      using step o by simp
    moreover have "decode_loop d (bs @ out) = decode_loop (decode_loop d bs) out"
      by (rule decode_loop_append)
    ultimately show ?thesis
      using r by metis
  qed
qed

lemma rows_upto_length:
  assumes "length fp = h * w" "r \<le> h"
  shows "list_all (\<lambda>x. length x = w) (rows_upto fp w r)"
proof -
  have "length (take w (drop (q * w) fp)) = w" if "q < r" for q
  proof -
    have "Suc q * w \<le> h * w"
      using that assms(2) by (intro mult_le_mono1) simp
    then show ?thesis
      using assms(1) by simp
  qed
  then show ?thesis
    by (simp add: rows_upto_def list_all_iff)
qed

lemma rows_upto_concat: "concat (rows_upto fp w r) = take (r * w) fp"
proof (induction r)
  case 0
  show ?case by (simp add: rows_upto_def)
next
  case (Suc r)
  have "concat (rows_upto fp w (Suc r)) = take (r * w) fp @ take w (drop (r * w) fp)"
    using Suc by (simp add: rows_upto_Suc)
  also have "\<dots> = take (r * w + w) fp"
    by (simp add: take_add)
  finally show ?case
    by (simp add: add.commute)
qed

lemma asarray_rows_upto:
  assumes "length fp = h * w" "0 < h" "0 < w"
  shows "asarray (rows_upto fp w h) = Inr \<lparr>dtype = Int64, shape = [h, w], flat = fp\<rparr>"
proof -
  obtain r rs where rows: "rows_upto fp w h = r # rs"
    using assms(2) by (cases "rows_upto fp w h") (simp_all add: rows_upto_def)
  have all: "list_all (\<lambda>x. length x = w) (r # rs)"
    using rows_upto_length[OF assms(1) order_refl] rows by simp
  then have r: "length r = w" and rs: "list_all (\<lambda>x. length x = length r) rs"
    by simp_all
  have n: "Suc (length rs) = h"
    using rows by (metis length_Cons length_map length_upt diff_zero rows_upto_def)
  have c: "concat (r # rs) = fp"
    using rows_upto_concat[of fp w h] rows assms(1) by simp
  show ?thesis
    unfolding rows asarray_def using rs r n c assms(3) by simp
qed

text \<open>
  The round trip: a bitmap of at least two rows and two columns whose elements are in
  0..255 is encoded, and the bytes decode to an array of the same shape and the same
  elements (of element type \<^verbatim>\<open>int64\<close>). The width has no upper bound: a run of more than
  16383 pixels is emitted as several codes.
\<close>

lemma encode_decode_2d:
  assumes "shape bitmap = [h, w]" "2 \<le> h" "2 \<le> w"
    and "length (flat bitmap) = h * w"
    and "\<forall>v\<in>set (flat bitmap). 0 \<le> v \<and> v < 256"
  shows "\<exists>rle_data. encode_rle bitmap = Inr rle_data \<and>
           decode_rle (Bytes rle_data) None =
             Inr \<lparr>dtype = Int64, shape = [h, w], flat = flat bitmap\<rparr>"
proof -
  have sq: "shape (squeeze bitmap) = [h, w]" "flat (squeeze bitmap) = flat bitmap"
    using assms(1,2,3) by (simp_all add: squeeze_def)
  have shp: "shape_at [h, w] 1 = Inr w"
    by (simp add: shape_at_def)
  have w: "0 < w" using assms(3) by simp
  have h: "0 < h" using assms(2) by simp
  have le: "0 * w + 0 \<le> h * w" by simp
  have init: "decoder_state decoder_init = NEW_CODE"
    "plane2d decoder_init = rows_upto (flat bitmap) w 0"
    "line_l decoder_init = take 0 (drop (0 * w) (flat bitmap))"
    by (simp_all add: decoder_init_def rows_upto_def)
  obtain out where "encode_loop (flat bitmap) [h, w] (0 * w + 0) [] = Inr ([] @ out)"
    and p: "plane2d (decode_loop decoder_init out) = rows_upto (flat bitmap) w h"
    using encode_loop_decodes[OF shp assms(4,5) w le init, of "[]"] by blast
  then have e: "encode_loop (flat bitmap) [h, w] 0 [] = Inr out"
    by simp
  have "encode_rle bitmap = Inr out"
    using sq e by (simp add: encode_rle_def ravel_def Let_def)
  moreover have "decode_rle (Bytes out) None =
      Inr \<lparr>dtype = Int64, shape = [h, w], flat = flat bitmap\<rparr>"
    using p asarray_rows_upto[OF assms(4) h w] by (simp add: decode_rle_def decode_stream_def)
  ultimately show ?thesis by blast
qed

lemma encode_decode_uint8:
  assumes "wf_ndarray bitmap" "dtype bitmap = UInt8" "shape bitmap = [h, w]" "2 \<le> h" "2 \<le> w"
  shows "\<exists>rle_data. encode_rle bitmap = Inr rle_data \<and>
           decode_rle (Bytes rle_data) None =
             Inr \<lparr>dtype = Int64, shape = [h, w], flat = flat bitmap\<rparr>"
proof -
  have "length (flat bitmap) = h * w"
    using assms(1,3) by (simp add: wf_ndarray_def)
  moreover have "\<forall>v\<in>set (flat bitmap). 0 \<le> v \<and> v < 256"
    using assms(1,2) by (auto simp: wf_ndarray_def list_all_iff)
  ultimately show ?thesis
    using assms(3,4,5) by (intro encode_decode_2d)
qed

section \<open>Rows and end-of-line markers\<close>

lemma closed_rows_plane2d:
  "plane2d (decode_loop d rle_data) = plane2d d @ closed_rows d rle_data"
proof (induction rle_data arbitrary: d)
  case Nil
  show ?case by simp
next
  case (Cons byte rle_data)
  have "plane2d (decode_byte d byte) =
      plane2d d @ (if decoder_state d = NEED_MORE \<and> uint byte = 0 then [line_l d] else [])"
    by (cases "decoder_state d") (simp_all add: decode_byte_def Let_def)
  then show ?case
    using Cons.IH[of "decode_byte d byte"] by simp
qed

lemma byte_pos: "0 < uint (b::byte) \<longleftrightarrow> b \<noteq> 0"
proof -
  have "0 \<le> uint b" by simp
  then have "0 < uint b \<longleftrightarrow> uint b \<noteq> 0" by linarith
  then show ?thesis by (simp add: uint_0_iff)
qed

lemma decode_byte_enters_NEED_MORE:
  "decoder_state (decode_byte d byte) = NEED_MORE \<Longrightarrow> byte = 0"
  by (cases "decoder_state d")
    (auto simp: decode_byte_def Let_def RLEDecoderState_of_def byte_pos split: if_splits)

lemma closed_rows_no_marker:
  "\<not> double_zero rle_data \<Longrightarrow> decoder_state d \<noteq> NEED_MORE \<Longrightarrow> closed_rows d rle_data = []"
  "\<not> double_zero (0 # rle_data) \<Longrightarrow> closed_rows d rle_data = []"
proof (induction rle_data arbitrary: d)
  case Nil
  { case 1 show ?case by simp }
  { case 2 show ?case by simp }
next
  case (Cons byte rle_data)
  {
    case 1
    show ?case
    proof (cases "decoder_state (decode_byte d byte) = NEED_MORE")
      case True
      then have "byte = 0" by (rule decode_byte_enters_NEED_MORE)
      with 1 have "\<not> double_zero (0 # rle_data)" by simp
      then have "closed_rows (decode_byte d byte) rle_data = []" by (rule Cons.IH(2))
      with 1 show ?thesis by simp
    next
      case False
      have "\<not> double_zero rle_data" using 1(1) by (cases rle_data) (auto split: if_splits)
      then have "closed_rows (decode_byte d byte) rle_data = []" using False by (rule Cons.IH(1))
      with 1 show ?thesis by simp
    qed
  }
  {
    case 2
    then have nz: "byte \<noteq> 0" and rest: "\<not> double_zero (byte # rle_data)"
      by (auto split: if_splits)
    have u: "uint byte \<noteq> 0" using nz by (simp add: uint_0_iff)
    have "decoder_state (decode_byte d byte) \<noteq> NEED_MORE"
      using nz decode_byte_enters_NEED_MORE by blast
    moreover have "\<not> double_zero rle_data" using rest by (cases rle_data) (auto split: if_splits)
    ultimately have "closed_rows (decode_byte d byte) rle_data = []" by (intro Cons.IH(1))
    with u show ?case by simp
  }
qed

text \<open>
  Claim C10, amended. For every byte string, \<^verbatim>\<open>decode_rle\<close> hands \<^verbatim>\<open>np.asarray\<close> exactly the
  rows closed by an end-of-line marker, in order. The line buffer left when the bytes run
  out is dropped: bytes after the last marker change neither the result nor whether the
  call raises, and the pixels they decode would be a row only if a marker followed. When
  the closed rows have one length, the bitmap returned consists of exactly these rows; when
  their lengths differ, the call raises \<^verbatim>\<open>ValueError\<close>. A byte string without two zero bytes
  in a row, which holds no marker, decodes to the empty array.
\<close>

theorem decode_rle_rows_are_closed_rows:
  "decode_rle (Bytes rle_data) None = asarray (closed_rows decoder_init rle_data) \<and>
   (closed_rows (decode_loop decoder_init rle_data) extra = [] \<longrightarrow>
      decode_rle (Bytes (rle_data @ extra)) None = decode_rle (Bytes rle_data) None) \<and>
   (decoder_state (decode_loop decoder_init rle_data) = NEW_CODE \<longrightarrow>
      decode_rle (Bytes (rle_data @ [0, 0])) None =
        asarray (closed_rows decoder_init rle_data @ [line_l (decode_loop decoder_init rle_data)])) \<and>
   (\<forall>r rs. closed_rows decoder_init rle_data = r # rs \<longrightarrow>
      decode_rle (Bytes rle_data) None =
        (if list_all (\<lambda>x. length x = length r) rs
         then Inr \<lparr>dtype = (if length r = 0 then Float64 else Int64),
                   shape = [Suc (length rs), length r], flat = concat (r # rs)\<rparr>
         else Inl ValueError)) \<and>
   (\<not> double_zero rle_data \<longrightarrow>
      decode_rle (Bytes rle_data) None = Inr \<lparr>dtype = Float64, shape = [0], flat = []\<rparr>)"
proof -
  have 1: "decode_rle (Bytes bs) None = asarray (closed_rows decoder_init bs)" for bs
    by (simp add: decode_rle_def decode_stream_def closed_rows_plane2d decoder_init_def)
  have 2: "decode_rle (Bytes (rle_data @ extra)) None = decode_rle (Bytes rle_data) None"
    if "closed_rows (decode_loop decoder_init rle_data) extra = []"
    using that
    by (simp add: decode_rle_def decode_stream_def decode_loop_append
        closed_rows_plane2d[of "decode_loop decoder_init rle_data" extra])
  have 3: "decode_rle (Bytes (rle_data @ [0, 0])) None =
      asarray (closed_rows decoder_init rle_data @ [line_l (decode_loop decoder_init rle_data)])"
    if "decoder_state (decode_loop decoder_init rle_data) = NEW_CODE"
  proof -
    have "plane2d (decode_loop decoder_init (rle_data @ [0, 0])) =
        plane2d (decode_loop decoder_init rle_data) @ [line_l (decode_loop decoder_init rle_data)]"
      by (simp only: decode_loop_append decode_line_end[OF that]) simp
    also have "plane2d (decode_loop decoder_init rle_data) = closed_rows decoder_init rle_data"
      by (simp add: closed_rows_plane2d decoder_init_def)
    finally show ?thesis
      by (simp add: decode_rle_def decode_stream_def)
  qed
  have 4: "decode_rle (Bytes rle_data) None =
        (if list_all (\<lambda>x. length x = length r) rs
         then Inr \<lparr>dtype = (if length r = 0 then Float64 else Int64),
                   shape = [Suc (length rs), length r], flat = concat (r # rs)\<rparr>
         else Inl ValueError)"
    if "closed_rows decoder_init rle_data = r # rs" for r rs
    by (simp only: 1 that asarray_def list.case)
  have 5: "decode_rle (Bytes rle_data) None = Inr \<lparr>dtype = Float64, shape = [0], flat = []\<rparr>"
    if "\<not> double_zero rle_data"
    using closed_rows_no_marker(1)[OF that, of decoder_init]
    by (simp add: 1 decoder_init_def asarray_def)
  from 1 2 3 4 5 show ?thesis by blast
qed

theorem decode_rle_rows_are_closed_rows_witness:
  "decode_rle (Bytes [5, 5, 0, 0]) None = Inr \<lparr>dtype = Int64, shape = [1, 2], flat = [5, 5]\<rparr> \<and>
   decode_rle (Bytes ([5, 5, 0, 0] @ [7, 7, 0])) None =
     Inr \<lparr>dtype = Int64, shape = [1, 2], flat = [5, 5]\<rparr> \<and>
   decode_rle (Bytes ([5, 5, 0, 0, 7, 7] @ [0, 0])) None =
     Inr \<lparr>dtype = Int64, shape = [2, 2], flat = [5, 5, 7, 7]\<rparr> \<and>
   decode_rle (Bytes [5, 0, 3, 9]) None = Inr \<lparr>dtype = Float64, shape = [0], flat = []\<rparr>"
proof -
  note t1 = decode_rle_rows_are_closed_rows[of "[5, 5, 0, 0]" "[7, 7, 0]"]
  note t2 = decode_rle_rows_are_closed_rows[of "[5, 0, 3, 9]" "[]"]
  note t3 = decode_rle_rows_are_closed_rows[of "[5, 5, 0, 0, 7, 7]" "[]"]
  have a: "closed_rows decoder_init [5, 5, 0, 0] = [5, 5] # []"
    by code_simp
  have b: "closed_rows (decode_loop decoder_init [5, 5, 0, 0]) [7, 7, 0] = []"
    by code_simp
  have c: "\<not> double_zero [5, 0, 3, 9]"
    by simp
  have d: "decoder_state (decode_loop decoder_init [5, 5, 0, 0, 7, 7]) = NEW_CODE"
    by code_simp
  have e: "asarray (closed_rows decoder_init [5, 5, 0, 0, 7, 7] @
      [line_l (decode_loop decoder_init [5, 5, 0, 0, 7, 7])]) =
      Inr \<lparr>dtype = Int64, shape = [2, 2], flat = [5, 5, 7, 7]\<rparr>"
    by code_simp
  have 1: "decode_rle (Bytes [5, 5, 0, 0]) None =
      Inr \<lparr>dtype = Int64, shape = [1, 2], flat = [5, 5]\<rparr>"
    using t1[THEN conjunct2, THEN conjunct2, THEN conjunct2, THEN conjunct1, rule_format, OF a]
    by simp
  have 2: "decode_rle (Bytes ([5, 5, 0, 0] @ [7, 7, 0])) None =
      Inr \<lparr>dtype = Int64, shape = [1, 2], flat = [5, 5]\<rparr>"
    using t1[THEN conjunct2, THEN conjunct1, rule_format, OF b] 1 by (simp only:)
  have 3: "decode_rle (Bytes ([5, 5, 0, 0, 7, 7] @ [0, 0])) None =
      Inr \<lparr>dtype = Int64, shape = [2, 2], flat = [5, 5, 7, 7]\<rparr>"
    using t3[THEN conjunct2, THEN conjunct2, THEN conjunct1, rule_format, OF d] e by (simp only:)
  have 4: "decode_rle (Bytes [5, 0, 3, 9]) None = Inr \<lparr>dtype = Float64, shape = [0], flat = []\<rparr>"
    using t2[THEN conjunct2, THEN conjunct2, THEN conjunct2, THEN conjunct2, rule_format, OF c] .
  from 1 2 3 4 show ?thesis by blast
qed

text \<open>
  Claim C10 as stated fails: the markers of \<open>05 05 00 00 07 00 00\<close> close a row of two
  pixels and a row of one, and no bitmap of these rows is returned.
\<close>

theorem decode_rle_rows_are_closed_rows_counterexample:
  "closed_rows decoder_init [5, 5, 0, 0, 7, 0, 0] = [[5, 5], [7]] \<and>
   decode_rle (Bytes [5, 5, 0, 0, 7, 0, 0]) None = Inl ValueError"
  by code_simp

section \<open>Maximal runs\<close>

lemma scan_run_maximal:
  assumes shp: "shape_at shp 1 = Inr w" and c: "c < w" and len: "length fp = h * w"
    and lt: "r * w + c < h * w"
    and n: "1 \<le> n" "n < 16384" "c + n \<le> w"
    and run: "\<forall>j<n. fp ! (r * w + c + j) = fp ! (r * w + c)"
    and stop: "c + n = w \<or> n = 16383 \<or> fp ! (r * w + c + n) \<noteq> fp ! (r * w + c)"
  shows "scan_run fp shp (r * w + c) 1 = Inr (n, c + n = w)"
proof -
  let ?i = "r * w + c"
  have "\<exists>k b. scan_run fp shp ?i 1 = Inr (k, b) \<and> 1 \<le> k \<and> k < 16384 \<and>
         c + k \<le> w \<and> (b \<longleftrightarrow> c + k = w) \<and>
         (\<forall>j<k. fp ! (?i + j) = fp ! ?i) \<and>
         (b \<or> k = 16383 \<or> fp ! (?i + k) \<noteq> fp ! ?i)"
    by (rule scan_run_spec[OF shp c len lt]) (use c in simp_all)
  then obtain k b where scan: "scan_run fp shp ?i 1 = Inr (k, b)"
    and k: "k < 16384" and ck: "c + k \<le> w" and b: "b \<longleftrightarrow> c + k = w"
    and runk: "\<forall>j<k. fp ! (?i + j) = fp ! ?i"
    and stopk: "b \<or> k = 16383 \<or> fp ! (?i + k) \<noteq> fp ! ?i"
    by blast
  have "\<not> k < n"
  proof
    assume less: "k < n"
    then have "\<not> b" using b n(3) by simp
    moreover have "k \<noteq> 16383" using less n(2) by simp
    moreover have "fp ! (?i + k) = fp ! ?i" using run less by simp
    ultimately show False using stopk by simp
  qed
  moreover have "\<not> n < k"
  proof
    assume less: "n < k"
    then have "fp ! (?i + n) = fp ! ?i" using runk by simp
    moreover have "n \<noteq> 16383" using less k by simp
    moreover have "c + n \<noteq> w" using less ck by simp
    ultimately show False using stop by simp
  qed
  ultimately have "k = n" by simp
  with scan b show ?thesis by simp
qed

lemma encode_loop_step:
  assumes "i < length fp" "scan_run fp shp i 1 = Inr (k, b)" "emit_run (fp ! i) k = Inr code"
  shows "encode_loop fp shp i acc = encode_loop fp shp (i + k) (acc @ code @ line_end b)"
  by (subst encode_loop.simps) (simp only: assms if_True sum.case prod.case)

lemma encode_loop_done:
  assumes "length fp \<le> i"
  shows "encode_loop fp shp i acc = Inr acc"
  using assms by (subst encode_loop.simps) simp

lemma position_split:
  assumes "i < h * (w::nat)"
  shows "i mod w < w" "i div w * w + i mod w = i" "i div w * w + i mod w < h * w"
proof -
  have "0 < w" using assms by (cases w) simp_all
  then show "i mod w < w" by simp
  show "i div w * w + i mod w = i" by simp
  then show "i div w * w + i mod w < h * w" using assms by simp
qed

lemma scan_run_at:
  assumes shp: "shape_at shp 1 = Inr w" and len: "length fp = h * w" and i: "i < h * w"
  shows "\<exists>k b. scan_run fp shp i 1 = Inr (k, b) \<and> 1 \<le> k \<and> k < 16384 \<and>
           i mod w + k \<le> w \<and> (b \<longleftrightarrow> i mod w + k = w) \<and>
           (\<forall>j<k. fp ! (i + j) = fp ! i) \<and>
           (b \<or> k = 16383 \<or> fp ! (i + k) \<noteq> fp ! i)"
proof -
  note p = position_split[OF i]
  have "\<exists>k b. scan_run fp shp (i div w * w + i mod w) 1 = Inr (k, b) \<and> 1 \<le> k \<and> k < 16384 \<and>
         i mod w + k \<le> w \<and> (b \<longleftrightarrow> i mod w + k = w) \<and>
         (\<forall>j<k. fp ! (i div w * w + i mod w + j) = fp ! (i div w * w + i mod w)) \<and>
         (b \<or> k = 16383 \<or> fp ! (i div w * w + i mod w + k) \<noteq> fp ! (i div w * w + i mod w))"
    by (rule scan_run_spec[OF shp p(1) len p(3)]) (use p(1) in simp_all)
  then show ?thesis
    by (simp only: p(2))
qed

lemma scan_run_maximal_at:
  assumes shp: "shape_at shp 1 = Inr w" and len: "length fp = h * w" and i: "i < h * w"
    and n: "1 \<le> n" "n < 16384" "i mod w + n \<le> w"
    and run: "\<forall>j<n. fp ! (i + j) = v"
    and stop: "i mod w + n = w \<or> n = 16383 \<or> fp ! (i + n) \<noteq> v"
  shows "scan_run fp shp i 1 = Inr (n, i mod w + n = w)"
proof -
  note p = position_split[OF i]
  have v: "fp ! i = v"
    using run n(1) by (metis add.right_neutral less_eq_Suc_le One_nat_def)
  have "scan_run fp shp (i div w * w + i mod w) 1 = Inr (n, i mod w + n = w)"
  proof (rule scan_run_maximal[OF shp p(1) len p(3) n])
    show "\<forall>j<n. fp ! (i div w * w + i mod w + j) = fp ! (i div w * w + i mod w)"
      unfolding p(2) v by (rule run)
    show "i mod w + n = w \<or> n = 16383 \<or>
        fp ! (i div w * w + i mod w + n) \<noteq> fp ! (i div w * w + i mod w)"
      unfolding p(2) v by (rule stop)
  qed
  then show ?thesis
    by (simp only: p(2))
qed

lemma encode_loop_run:
  assumes shp: "shape_at shp 1 = Inr w" and len: "length fp = h * w" and i: "i < h * w"
    and n: "1 \<le> n" "n < 16384" "i mod w + n \<le> w"
    and run: "\<forall>j<n. fp ! (i + j) = v"
    and stop: "i mod w + n = w \<or> n = 16383 \<or> fp ! (i + n) \<noteq> v"
    and emit: "emit_run v n = Inr code"
  shows "encode_loop fp shp i acc =
    encode_loop fp shp (i + n) (acc @ code @ line_end (i mod w + n = w))"
proof -
  have v: "fp ! i = v"
    using run n(1) by (metis add.right_neutral less_eq_Suc_le One_nat_def)
  have scan: "scan_run fp shp i 1 = Inr (n, i mod w + n = w)"
    using shp len i n run stop by (rule scan_run_maximal_at)
  have less: "i < length fp"
    using i len by simp
  show ?thesis
    by (rule encode_loop_step[OF less scan]) (simp only: v emit)
qed


lemma encode_loop_total:
  assumes shp: "shape_at shp 1 = Inr w" and len: "length fp = h * w"
    and vals: "\<forall>v\<in>set fp. 0 \<le> v \<and> v < 256" and i: "i \<le> h * w"
  shows "\<exists>out. encode_loop fp shp i acc = Inr (acc @ out)"
proof (cases "i < h * w")
  case True
  note p = position_split[OF True]
  define d where "d = \<lparr>plane2d = rows_upto fp w (i div w),
    line_l = take (i mod w) (drop (i div w * w) fp), decoder_state = NEW_CODE, tmp = 0\<rparr>"
  have le: "i div w * w + i mod w \<le> h * w"
    using p(3) by simp
  have d: "decoder_state d = NEW_CODE" "plane2d d = rows_upto fp w (i div w)"
    "line_l d = take (i mod w) (drop (i div w * w) fp)"
    by (simp_all add: d_def)
  obtain out where "encode_loop fp shp (i div w * w + i mod w) acc = Inr (acc @ out)"
    using encode_loop_decodes[OF shp len vals p(1) le d, of acc] by blast
  then show ?thesis
    by (simp only: p(2)) blast
next
  case False
  then have "length fp \<le> i"
    using len by simp
  then have "encode_loop fp shp i acc = Inr (acc @ [])"
    by (simp only: encode_loop_done append_Nil2)
  then show ?thesis by blast
qed

lemma encode_loop_run_output:
  assumes shp: "shape_at shp 1 = Inr w" and len: "length fp = h * w"
    and vals: "\<forall>v\<in>set fp. 0 \<le> v \<and> v < 256" and i: "i < h * w"
    and n: "1 \<le> n" "n < 16384" "i mod w + n \<le> w"
    and run: "\<forall>j<n. fp ! (i + j) = v"
    and stop: "i mod w + n = w \<or> n = 16383 \<or> fp ! (i + n) \<noteq> v"
    and emit: "emit_run v n = Inr code"
  shows "\<exists>rest. encode_loop fp shp i acc =
    Inr (acc @ code @ line_end (i mod w + n = w) @ rest)"
proof -
  note p = position_split[OF i]
  have "i div w * w + i mod w + n \<le> h * w"
    using p(3) n(3) by (rule row_end_le)
  then have le: "i + n \<le> h * w"
    by (simp only: p(2))
  obtain rest where "encode_loop fp shp (i + n) (acc @ code @ line_end (i mod w + n = w)) =
      Inr ((acc @ code @ line_end (i mod w + n = w)) @ rest)"
    using encode_loop_total[OF shp len vals le] by blast
  then have "encode_loop fp shp i acc = Inr (acc @ code @ line_end (i mod w + n = w) @ rest)"
    by (simp add: encode_loop_run[OF shp len i n run stop emit])
  then show ?thesis by blast
qed

lemma reaches_encode_loop:
  "reaches fp shp i acc \<Longrightarrow> encode_loop fp shp 0 [] = encode_loop fp shp i acc"
proof (induction rule: reaches.induct)
  case start
  show ?case by simp
next
  case (pass i rle_data k insert_line_end code)
  then show ?case
    by (simp only: encode_loop_step[OF pass.hyps(2,3,4)])
qed

text \<open>
  The bytes of a maximal run inside a row, in the output of \<^verbatim>\<open>encode_rle\<close> on a bitmap of at
  least two rows and two columns: when the loop is at the start \<open>i\<close> of the run with the
  bytes \<open>acc\<close> emitted, the output is \<open>acc\<close>, the code of the run, the end-of-line marker if
  the run ends the row, and the bytes of the later runs.
\<close>

lemma encode_rle_run_output:
  assumes bitmap: "shape bitmap = [h, w]" "2 \<le> h" "2 \<le> w" "length (flat bitmap) = h * w"
    and vals: "\<forall>v\<in>set (flat bitmap). 0 \<le> v \<and> v < 256"
    and at: "reaches (flat bitmap) [h, w] i acc" and i: "i < h * w"
    and n: "1 \<le> n" "n < 16384" "i mod w + n \<le> w"
    and run: "\<forall>j<n. flat bitmap ! (i + j) = v"
    and stop: "i mod w + n = w \<or> n = 16383 \<or> flat bitmap ! (i + n) \<noteq> v"
    and emit: "emit_run v n = Inr code"
  shows "\<exists>rest. encode_rle bitmap = Inr (acc @ code @ line_end (i mod w + n = w) @ rest)"
proof -
  have shp: "shape_at [h, w] 1 = Inr w"
    by (simp add: shape_at_def)
  have "encode_rle bitmap = encode_loop (flat bitmap) [h, w] 0 []"
    using bitmap(1,2,3) by (simp add: encode_rle_def squeeze_def ravel_def)
  also have "\<dots> = encode_loop (flat bitmap) [h, w] i acc"
    using at by (rule reaches_encode_loop)
  finally show ?thesis
    using encode_loop_run_output[OF shp bitmap(4) vals i n run stop emit, of acc] by simp
qed

lemma encode_rle_run_of_63_or_64:
  assumes bitmap: "shape bitmap = [h, w]" "2 \<le> h" "2 \<le> w" "length (flat bitmap) = h * w"
    and vals: "\<forall>v\<in>set (flat bitmap). 0 \<le> v \<and> v < 256"
    and at: "reaches (flat bitmap) [h, w] i acc" and i: "i < h * w"
    and n: "n = 63 \<or> n = 64" and fits: "i mod w + n \<le> w"
    and run: "\<forall>j<n. flat bitmap ! (i + j) = v"
    and stop: "i mod w + n = w \<or> flat bitmap ! (i + n) \<noteq> v"
  shows "\<exists>rest. encode_rle bitmap =
           Inr (acc @
              (if v \<noteq> 0
               then (if n = 63 then [0, 0xBF, word_of_int v] else [0, 0xC0, 0x40, word_of_int v])
               else (if n = 63 then [0, 63] else [0, 0x40, 0x40])) @
              line_end (i mod w + n = w) @ rest)"
proof -
  have n1: "1 \<le> n" "n < 16384" using n by auto
  have stop': "i mod w + n = w \<or> n = 16383 \<or> flat bitmap ! (i + n) \<noteq> v"
    using stop by blast
  have "0 < n"
    using n1(1) by simp
  then have "flat bitmap ! (i + 0) = v"
    using run by blast
  then have "flat bitmap ! i = v"
    by simp
  moreover have "flat bitmap ! i \<in> set (flat bitmap)"
    using i bitmap(4) by simp
  ultimately have v: "0 \<le> v" "v < 256"
    using vals by auto
  have emit: "emit_run v n = Inr
      (if v \<noteq> 0
       then (if n = 63 then [0, 0xBF, word_of_int v] else [0, 0xC0, 0x40, word_of_int v])
       else (if n = 63 then [0, 63] else [0, 0x40, 0x40]))"
    using n v by (auto simp: emit_run_def bytearray_def)
  show ?thesis
    using bitmap vals at i n1 fits run stop' emit by (rule encode_rle_run_output)
qed

lemma encode_rle_literal_pixels:
  assumes bitmap: "shape bitmap = [h, w]" "2 \<le> h" "2 \<le> w" "length (flat bitmap) = h * w"
    and vals: "\<forall>v\<in>set (flat bitmap). 0 \<le> v \<and> v < 256"
    and at: "reaches (flat bitmap) [h, w] i acc" and i: "i < h * w"
    and n: "n = 1 \<or> n = 2" and fits: "i mod w + n \<le> w"
    and run: "\<forall>j<n. flat bitmap ! (i + j) = v"
    and stop: "i mod w + n = w \<or> flat bitmap ! (i + n) \<noteq> v"
    and v: "v \<noteq> 0"
  shows "\<exists>rest. encode_rle bitmap =
           Inr (acc @ replicate n (word_of_int v) @ line_end (i mod w + n = w) @ rest)"
    and "word_of_int v \<noteq> (0::byte)"
proof -
  have n1: "1 \<le> n" "n < 16384" "n < 3" using n by auto
  have stop': "i mod w + n = w \<or> n = 16383 \<or> flat bitmap ! (i + n) \<noteq> v"
    using stop by blast
  have "0 < n"
    using n1(1) by simp
  then have "flat bitmap ! (i + 0) = v"
    using run by blast
  then have "flat bitmap ! i = v"
    by simp
  moreover have "flat bitmap ! i \<in> set (flat bitmap)"
    using i bitmap(4) by simp
  ultimately have v': "0 \<le> v" "v < 256"
    using vals by auto
  have emit: "emit_run v n = Inr (replicate n (word_of_int v))"
    by (rule emit_run_color_literal) (use v v' n1 in simp_all)
  show "\<exists>rest. encode_rle bitmap =
      Inr (acc @ replicate n (word_of_int v) @ line_end (i mod w + n = w) @ rest)"
    using bitmap vals at i n1(1,2) fits run stop' emit by (rule encode_rle_run_output)
  have "uint (word_of_int v :: byte) = v"
    using v' by (rule byte_of_int)
  then show "word_of_int v \<noteq> (0::byte)"
    using v by auto
qed

lemma encode_rle_run_clipped:
  assumes bitmap: "shape bitmap = [h, w]" "2 \<le> h" "2 \<le> w" "length (flat bitmap) = h * w"
    and vals: "\<forall>v\<in>set (flat bitmap). 0 \<le> v \<and> v < 256"
    and at: "reaches (flat bitmap) [h, w] i acc" and i: "i < h * w"
  shows "\<exists>k insert_line_end code rest.
           scan_run (flat bitmap) [h, w] i 1 = Inr (k, insert_line_end) \<and> 1 \<le> k \<and>
           i mod w + k \<le> w \<and> (insert_line_end \<longleftrightarrow> i mod w + k = w) \<and>
           ((\<forall>j<w - i mod w. flat bitmap ! (i + j) = flat bitmap ! i) \<and> w - i mod w < 16384 \<longrightarrow>
              k = w - i mod w \<and> insert_line_end) \<and>
           emit_run (flat bitmap ! i) k = Inr code \<and>
           encode_rle bitmap =
             Inr (acc @ code @ (if i mod w + k = w then [0, 0] else []) @ rest)"
proof -
  let ?fp = "flat bitmap"
  have shp: "shape_at [h, w] 1 = Inr w"
    by (simp add: shape_at_def)
  obtain k b where scan: "scan_run ?fp [h, w] i 1 = Inr (k, b)"
    and k: "1 \<le> k" "k < 16384" and fits: "i mod w + k \<le> w" and b: "b \<longleftrightarrow> i mod w + k = w"
    and run: "\<forall>j<k. ?fp ! (i + j) = ?fp ! i"
    and stop: "b \<or> k = 16383 \<or> ?fp ! (i + k) \<noteq> ?fp ! i"
    using scan_run_at[OF shp bitmap(4) i] by blast
  have "?fp ! i \<in> set ?fp"
    using i bitmap(4) by simp
  then have v: "0 \<le> ?fp ! i" "?fp ! i < 256"
    using vals by auto
  have "decoder_state decoder_init = NEW_CODE"
    by (simp add: decoder_init_def)
  then obtain code where emit: "emit_run (?fp ! i) k = Inr code"
    using decode_emit_run[OF _ k v] by blast
  have stop': "i mod w + k = w \<or> k = 16383 \<or> ?fp ! (i + k) \<noteq> ?fp ! i"
    using stop b by blast
  obtain rest where out: "encode_rle bitmap = Inr (acc @ code @ line_end (i mod w + k = w) @ rest)"
    using encode_rle_run_output[OF bitmap vals at i k fits run stop' emit] by blast
  have full: "k = w - i mod w \<and> b"
    if "(\<forall>j<w - i mod w. ?fp ! (i + j) = ?fp ! i) \<and> w - i mod w < 16384"
  proof -
    have m: "i mod w < w" using position_split(1)[OF i] .
    have "scan_run ?fp [h, w] i 1 = Inr (w - i mod w, i mod w + (w - i mod w) = w)"
      by (rule scan_run_maximal_at[OF shp bitmap(4) i, where v = "?fp ! i"]) (use that m in simp_all)
    with scan m show ?thesis by simp
  qed
  have "encode_rle bitmap = Inr (acc @ code @ (if i mod w + k = w then [0, 0] else []) @ rest)"
    using out by (simp add: line_end_def)
  with scan k(1) fits b full emit show ?thesis by blast
qed

section \<open>Codes of the encoder on single rows and columns\<close>

text \<open>
  Claim C5, on a bitmap of one row: 63 pixels of value 5 and one of value 0. \<^verbatim>\<open>np.squeeze\<close>
  drops the axis of length one, \<^verbatim>\<open>_bitmap.shape[1]\<close> raises \<^verbatim>\<open>IndexError\<close>, and no code is
  emitted. With a second row, the runs are emitted as the claim says: 63 pixels of value 5
  as \<open>00 BF 05\<close> and 64 transparent pixels as \<open>00 40 40\<close>; 64 pixels of value 5 as
  \<open>00 C0 40 05\<close> and 63 transparent pixels as \<open>00 3F\<close>. For every bitmap of at least two
  rows and two columns this is lemma \<open>encode_rle_run_of_63_or_64\<close>.
\<close>

theorem run_of_63_pixels_in_one_row:
  "encode_rle \<lparr>dtype = UInt8, shape = [1, 64], flat = replicate 63 5 @ [0]\<rparr> = Inl IndexError \<and>
   encode_rle \<lparr>dtype = UInt8, shape = [2, 64], flat = replicate 63 5 @ [0] @ replicate 64 0\<rparr> =
     Inr [0, 0xBF, 5, 0, 1, 0, 0, 0, 0x40, 0x40, 0, 0] \<and>
   encode_rle \<lparr>dtype = UInt8, shape = [2, 64], flat = replicate 64 5 @ replicate 63 0 @ [5]\<rparr> =
     Inr [0, 0xC0, 0x40, 5, 0, 0, 0, 0x3F, 5, 0, 0]"
proof -
  have shp: "shape_at [2, 64] 1 = Inr 64"
    by (simp add: shape_at_def)
  have c63: "emit_run 5 63 = Inr [0, 0xBF, 5]" and c64: "emit_run 5 64 = Inr [0, 0xC0, 0x40, 5]"
    and t63: "emit_run 0 63 = Inr [0, 0x3F]" and t64: "emit_run 0 64 = Inr [0, 0x40, 0x40]"
    and t1: "emit_run 0 1 = Inr [0, 1]" and c1: "emit_run 5 1 = Inr [5]"
    by (simp_all add: emit_run_def bytearray_def)
  have a: "encode_rle \<lparr>dtype = UInt8, shape = [1, 64], flat = replicate 63 5 @ [0]\<rparr> =
      Inl IndexError"
    by (simp add: encode_rle_def squeeze_def ravel_def encode_loop.simps scan_run.simps
        shape_at_def)
  let ?fp = "replicate 63 5 @ [0] @ replicate 64 (0::int)"
  have len: "length ?fp = 2 * 64"
    by simp
  have 1: "encode_loop ?fp [2, 64] 0 [] = encode_loop ?fp [2, 64] 63 [0, 0xBF, 5]"
    using encode_loop_run[OF shp len, of 0 63 5 "[0, 0xBF, 5]" "[]"] c63
    by (simp add: nth_append line_end_def)
  have 2: "encode_loop ?fp [2, 64] 63 [0, 0xBF, 5] = encode_loop ?fp [2, 64] 64 [0, 0xBF, 5, 0, 1, 0, 0]"
    using encode_loop_run[OF shp len, of 63 1 0 "[0, 1]" "[0, 0xBF, 5]"] t1
    by (simp add: nth_append line_end_def)
  have 3: "encode_loop ?fp [2, 64] 64 [0, 0xBF, 5, 0, 1, 0, 0] =
      encode_loop ?fp [2, 64] 128 [0, 0xBF, 5, 0, 1, 0, 0, 0, 0x40, 0x40, 0, 0]"
    using encode_loop_run[OF shp len, of 64 64 0 "[0, 0x40, 0x40]" "[0, 0xBF, 5, 0, 1, 0, 0]"] t64
    by (simp add: nth_append line_end_def)
  have 4: "encode_loop ?fp [2, 64] 128 [0, 0xBF, 5, 0, 1, 0, 0, 0, 0x40, 0x40, 0, 0] =
      Inr [0, 0xBF, 5, 0, 1, 0, 0, 0, 0x40, 0x40, 0, 0]"
    by (rule encode_loop_done) simp
  have "encode_loop ?fp [2, 64] 0 [] = Inr [0, 0xBF, 5, 0, 1, 0, 0, 0, 0x40, 0x40, 0, 0]"
    by (simp only: 1 2 3 4)
  then have b: "encode_rle \<lparr>dtype = UInt8, shape = [2, 64], flat = ?fp\<rparr> =
      Inr [0, 0xBF, 5, 0, 1, 0, 0, 0, 0x40, 0x40, 0, 0]"
    by (simp add: encode_rle_def squeeze_def ravel_def)
  let ?fq = "replicate 64 5 @ replicate 63 0 @ [5::int]"
  have lenq: "length ?fq = 2 * 64"
    by simp
  have 5: "encode_loop ?fq [2, 64] 0 [] = encode_loop ?fq [2, 64] 64 [0, 0xC0, 0x40, 5, 0, 0]"
    using encode_loop_run[OF shp lenq, of 0 64 5 "[0, 0xC0, 0x40, 5]" "[]"] c64
    by (simp add: nth_append line_end_def)
  have 6: "encode_loop ?fq [2, 64] 64 [0, 0xC0, 0x40, 5, 0, 0] =
      encode_loop ?fq [2, 64] 127 [0, 0xC0, 0x40, 5, 0, 0, 0, 0x3F]"
    using encode_loop_run[OF shp lenq, of 64 63 0 "[0, 0x3F]" "[0, 0xC0, 0x40, 5, 0, 0]"] t63
    by (simp add: nth_append line_end_def)
  have 7: "encode_loop ?fq [2, 64] 127 [0, 0xC0, 0x40, 5, 0, 0, 0, 0x3F] =
      encode_loop ?fq [2, 64] 128 [0, 0xC0, 0x40, 5, 0, 0, 0, 0x3F, 5, 0, 0]"
    using encode_loop_run[OF shp lenq, of 127 1 5 "[5]" "[0, 0xC0, 0x40, 5, 0, 0, 0, 0x3F]"] c1
    by (simp add: nth_append line_end_def)
  have 8: "encode_loop ?fq [2, 64] 128 [0, 0xC0, 0x40, 5, 0, 0, 0, 0x3F, 5, 0, 0] =
      Inr [0, 0xC0, 0x40, 5, 0, 0, 0, 0x3F, 5, 0, 0]"
    by (rule encode_loop_done) simp
  have "encode_loop ?fq [2, 64] 0 [] = Inr [0, 0xC0, 0x40, 5, 0, 0, 0, 0x3F, 5, 0, 0]"
    by (simp only: 5 6 7 8)
  then have c: "encode_rle \<lparr>dtype = UInt8, shape = [2, 64], flat = ?fq\<rparr> =
      Inr [0, 0xC0, 0x40, 5, 0, 0, 0, 0x3F, 5, 0, 0]"
    by (simp add: encode_rle_def squeeze_def ravel_def)
  from a b c show ?thesis by blast
qed

text \<open>
  Claim C6, on a bitmap of three rows of one pixel of value 5: each run reaches the last
  column of its row, yet \<^verbatim>\<open>np.squeeze\<close> drops the axis of length one,
  \<^verbatim>\<open>_bitmap.shape[1]\<close> raises \<^verbatim>\<open>IndexError\<close>, and neither a code nor a marker is emitted. With
  rows of three pixels, the run of value 5 is cut at the end of the first row although the
  next row starts with 5, and each code is followed by \<open>00 00\<close>. For every bitmap of at
  least two rows and two columns this is lemma \<open>encode_rle_run_clipped\<close>.
\<close>

theorem run_to_row_end_in_one_column:
  "encode_rle \<lparr>dtype = UInt8, shape = [3, 1], flat = [5, 5, 5]\<rparr> = Inl IndexError \<and>
   encode_rle \<lparr>dtype = UInt8, shape = [2, 3], flat = [5, 5, 5, 5, 5, 5]\<rparr> =
     Inr [0, 0x83, 5, 0, 0, 0, 0x83, 5, 0, 0]"
  by (simp add: encode_rle_def squeeze_def ravel_def encode_loop.simps scan_run.simps
      shape_at_def emit_run_def bytearray_def line_end_def)

text \<open>
  Claim C7, on the bitmap of one row \<open>[7, 7, 0]\<close>: \<^verbatim>\<open>np.squeeze\<close> drops the axis of length
  one, \<^verbatim>\<open>_bitmap.shape[1]\<close> raises \<^verbatim>\<open>IndexError\<close>, and no literal byte is emitted. With a
  second row \<open>[9, 4, 4]\<close>, the runs of one and of two colour pixels are emitted as one and
  two literal bytes, and the decoder in state \<^verbatim>\<open>NEW_CODE\<close> turns the byte 7 into one pixel. For
  every bitmap of at least two rows and two columns the encoder part is lemma
  \<open>encode_rle_literal_pixels\<close>, and for every byte above 0 the decoder part is lemma
  \<open>decode_byte_NEW_CODE\<close>.
\<close>

theorem literal_pixels_in_one_row:
  "encode_rle \<lparr>dtype = UInt8, shape = [1, 3], flat = [7, 7, 0]\<rparr> = Inl IndexError \<and>
   encode_rle \<lparr>dtype = UInt8, shape = [2, 3], flat = [7, 7, 0, 9, 4, 4]\<rparr> =
     Inr [7, 7, 0, 1, 0, 0, 9, 4, 4, 0, 0] \<and>
   decode_byte decoder_init 7 = decoder_init\<lparr>line_l := [7]\<rparr>"
  by (simp add: encode_rle_def squeeze_def ravel_def encode_loop.simps scan_run.simps
      shape_at_def emit_run_def bytearray_def line_end_def decode_byte_def decoder_init_def)

section \<open>Segments, long colour runs and single rows\<close>

text \<open>
  Claim C8. Decoding the segment list \<open>[(1, X), (2, Y), (1, Z)]\<close> with object identifier 1
  is decoding the bytes \<open>X @ Z\<close>; decoding any segment list with an identifier is decoding
  the payloads of the segments with that identifier, concatenated in order; decoding it
  without identifier is decoding all payloads concatenated in order. A single segment is
  a list of one.
\<close>

theorem decode_rle_filtered_segments:
  "decode_rle (Segments [\<lparr>o_id = 1, data = X\<rparr>, \<lparr>o_id = 2, data = Y\<rparr>, \<lparr>o_id = 1, data = Z\<rparr>])
     (Some 1) = decode_rle (Bytes (X @ Z)) q \<and>
   decode_rle (Segments l) (Some n) =
     decode_rle (Bytes (concat (map data (filter (\<lambda>x. o_id x = n) l)))) q \<and>
   decode_rle (Segments l) None = decode_rle (Bytes (concat (map data l))) q \<and>
   decode_rle (Segment s) q = decode_rle (Segments [s]) q"
proof -
  have "filter (\<lambda>x. n = o_id x) l = filter (\<lambda>x. o_id x = n) l"
    by (rule filter_cong) auto
  then show ?thesis
    by (simp add: decode_rle_def)
qed

lemma large_cco_two_bytes:
  assumes "decoder_state d = LARGE_CCO" "0 \<le> tmp d" "0 < 256 * tmp d + uint b"
  shows "decode_loop d [b, c] =
    d\<lparr>line_l := line_l d @ replicate (nat (256 * tmp d + uint b)) (uint c),
      decoder_state := NEW_CODE, tmp := - (256 * tmp d + uint b)\<rparr>"
  using assms by (simp add: decode_byte_LARGE_CCO)

lemma large_cco_zero_length:
  assumes "decoder_state d = LARGE_CCO" "tmp d = 0"
  shows "decode_byte d 0 = d"
  using assms by (simp add: decode_byte_LARGE_CCO)

text \<open>
  Claim C9, on the bytes \<open>00 C0 00 05 07 00 00\<close>. After \<open>00 C0\<close> the decoder is in
  \<^verbatim>\<open>LARGE_CCO\<close>. The length byte \<open>00\<close> makes the combined length 0, and \<open>tmp\<close> is 0, not
  negative: the decoder takes the next byte \<open>05\<close> for a length byte again, then \<open>07\<close> for the
  colour, and the result is one row of five pixels of value 7. A long colour run of more than 0 pixels
  does take two bytes (\<open>large_cco_two_bytes\<close>).
\<close>

theorem large_cco_zero_length_reads_on:
  "decoder_state (decode_loop decoder_init [0, 0xC0]) = LARGE_CCO \<and>
   tmp (decode_loop decoder_init [0, 0xC0, 0]) = 0 \<and>
   decoder_state (decode_loop decoder_init [0, 0xC0, 0]) = LARGE_CCO \<and>
   tmp (decode_loop decoder_init [0, 0xC0, 0, 5]) = - 5 \<and>
   decoder_state (decode_loop decoder_init [0, 0xC0, 0, 5]) = LARGE_CCO \<and>
   line_l (decode_loop decoder_init [0, 0xC0, 0, 5]) = [] \<and>
   decode_rle (Bytes [0, 0xC0, 0, 5, 7, 0, 0]) None =
     Inr \<lparr>dtype = Int64, shape = [1, 5], flat = [7, 7, 7, 7, 7]\<rparr>"
  by code_simp

text \<open>
  Claim C1, on bitmaps of one row or one column. \<^verbatim>\<open>np.squeeze\<close> drops the axis of length
  one, the lookup \<^verbatim>\<open>_bitmap.shape[1]\<close> raises \<^verbatim>\<open>IndexError\<close>, and nothing is encoded. For
  bitmaps of at least two rows and two columns the round trip holds (\<open>encode_decode_2d\<close>,
  \<open>encode_decode_uint8\<close>).
\<close>

theorem encode_rle_one_row_or_column:
  "encode_rle \<lparr>dtype = UInt8, shape = [1, 3], flat = [1, 2, 3]\<rparr> = Inl IndexError \<and>
   encode_rle \<lparr>dtype = UInt8, shape = [3, 1], flat = [1, 2, 3]\<rparr> = Inl IndexError"
  by (simp add: encode_rle_def squeeze_def ravel_def encode_loop.simps scan_run.simps
      shape_at_def)

text \<open>
  Claim C4, on the bitmap of one row \<open>[0, 0, 0, 0]\<close>: the encoder raises \<^verbatim>\<open>IndexError\<close>.
  The same row twice is encoded as \<open>00 04 00 00\<close> twice, and \<open>00 04 00 00\<close> decodes to the
  one row \<open>[0, 0, 0, 0]\<close>.
\<close>

theorem encode_rle_transparent_row:
  "encode_rle \<lparr>dtype = UInt8, shape = [1, 4], flat = [0, 0, 0, 0]\<rparr> = Inl IndexError \<and>
   encode_rle \<lparr>dtype = UInt8, shape = [2, 4], flat = [0, 0, 0, 0, 0, 0, 0, 0]\<rparr> =
     Inr [0, 4, 0, 0, 0, 4, 0, 0] \<and>
   decode_rle (Bytes [0, 4, 0, 0]) None =
     Inr \<lparr>dtype = Int64, shape = [1, 4], flat = [0, 0, 0, 0]\<rparr>"
proof -
  have "decode_rle (Bytes [0, 4, 0, 0]) None =
      Inr \<lparr>dtype = Int64, shape = [1, 4], flat = [0, 0, 0, 0]\<rparr>"
    by code_simp
  then show ?thesis
    by (simp add: encode_rle_def squeeze_def ravel_def encode_loop.simps scan_run.simps
        shape_at_def emit_run_def bytearray_def line_end_def)
qed

lemma encode_two_rows_of_70:
  "encode_rle \<lparr>dtype = UInt8, shape = [2, 70], flat = replicate 140 5\<rparr> =
     Inr [0, 0xC0, 0x46, 5, 0, 0, 0, 0xC0, 0x46, 5, 0, 0]"
proof -
  let ?fp = "replicate 140 (5::int)"
  have shp: "shape_at [2, 70] 1 = Inr 70"
    by (simp add: shape_at_def)
  have len: "length ?fp = 2 * 70"
    by simp
  have emit: "emit_run 5 70 = Inr [0, 0xC0, 0x46, 5]"
    by code_simp
  have 1: "encode_loop ?fp [2, 70] 0 [] = encode_loop ?fp [2, 70] 70 [0, 0xC0, 0x46, 5, 0, 0]"
    using encode_loop_run[OF shp len, of 0 70 5 "[0, 0xC0, 0x46, 5]" "[]"] emit
    by (simp add: line_end_def)
  have 2: "encode_loop ?fp [2, 70] 70 [0, 0xC0, 0x46, 5, 0, 0] =
      encode_loop ?fp [2, 70] 140 [0, 0xC0, 0x46, 5, 0, 0, 0, 0xC0, 0x46, 5, 0, 0]"
    using encode_loop_run[OF shp len, of 70 70 5 "[0, 0xC0, 0x46, 5]" "[0, 0xC0, 0x46, 5, 0, 0]"] emit
    by (simp add: line_end_def)
  have 3: "encode_loop ?fp [2, 70] 140 [0, 0xC0, 0x46, 5, 0, 0, 0, 0xC0, 0x46, 5, 0, 0] =
      Inr [0, 0xC0, 0x46, 5, 0, 0, 0, 0xC0, 0x46, 5, 0, 0]"
    by (rule encode_loop_done) simp
  have "encode_loop ?fp [2, 70] 0 [] = Inr [0, 0xC0, 0x46, 5, 0, 0, 0, 0xC0, 0x46, 5, 0, 0]"
    by (simp only: 1 2 3)
  then show ?thesis
    by (simp add: encode_rle_def squeeze_def ravel_def)
qed

text \<open>
  Claim C3, amended. A run of 70 pixels of value 5 is encoded as the four bytes
  \<open>00 C0 46 05\<close> (\<open>0xC0 | (70 >> 8) = 0xC0\<close>, \<open>70 & 0xFF = 0x46\<close>); a bitmap of two rows of 70
  such pixels is encoded as \<open>00 C0 46 05 00 00\<close> twice, and \<open>00 C0 46 05 00 00\<close> decodes to one
  row of 70 pixels of value 5.
\<close>

theorem run_of_70_pixels:
  "emit_run 5 70 = Inr [0, 0xC0, 0x46, 5] \<and>
   encode_rle \<lparr>dtype = UInt8, shape = [2, 70], flat = replicate 140 5\<rparr> =
     Inr [0, 0xC0, 0x46, 5, 0, 0, 0, 0xC0, 0x46, 5, 0, 0] \<and>
   decode_rle (Bytes [0, 0xC0, 0x46, 5, 0, 0]) None =
     Inr \<lparr>dtype = Int64, shape = [1, 70], flat = replicate 70 5\<rparr>"
proof -
  have "emit_run 5 70 = Inr [0, 0xC0, 0x46, 5]"
    by code_simp
  moreover have "decode_rle (Bytes [0, 0xC0, 0x46, 5, 0, 0]) None =
      Inr \<lparr>dtype = Int64, shape = [1, 70], flat = replicate 70 5\<rparr>"
    by code_simp
  ultimately show ?thesis
    using encode_two_rows_of_70 by blast
qed

text \<open>
  Claim C3 as stated fails: the bytes of the run are not \<open>00 C0 00 46 05\<close>, neither for one
  row, which is not encoded at all, nor for two.
\<close>

theorem run_of_70_pixels_counterexample:
  "encode_rle \<lparr>dtype = UInt8, shape = [1, 70], flat = replicate 70 5\<rparr> \<noteq>
     Inr [0, 0xC0, 0, 0x46, 5, 0, 0] \<and>
   emit_run 5 70 \<noteq> Inr [0, 0xC0, 0, 0x46, 5] \<and>
   encode_rle \<lparr>dtype = UInt8, shape = [2, 70], flat = replicate 140 5\<rparr> \<noteq>
     Inr [0, 0xC0, 0, 0x46, 5, 0, 0, 0, 0xC0, 0, 0x46, 5, 0, 0]"
proof -
  have "encode_rle \<lparr>dtype = UInt8, shape = [1, 70], flat = replicate 70 5\<rparr> = Inl IndexError"
    by (simp add: encode_rle_def squeeze_def ravel_def encode_loop.simps scan_run.simps
        shape_at_def)
  moreover have "emit_run 5 70 = Inr [0, 0xC0, 0x46, 5]"
    by code_simp
  ultimately show ?thesis
    using encode_two_rows_of_70 by simp
qed

section \<open>What the encoder checks\<close>

lemma bytearray_ValueError:
  assumes "v \<in> set xs" "\<not> (0 \<le> v \<and> v < 256)"
  shows "bytearray xs = Inl ValueError"
  using assms by (auto simp: bytearray_def list_all_iff)

lemma emit_run_ValueError:
  assumes "v \<noteq> 0" "\<not> (0 \<le> v \<and> v < 256)" "1 \<le> k"
  shows "emit_run v k = Inl ValueError"
proof -
  have "bytearray (replicate k v) = Inl ValueError"
    by (rule bytearray_ValueError[of v]) (use assms(2,3) in simp_all)
  moreover have "bytearray [0, a, v] = Inl ValueError" for a
    by (rule bytearray_ValueError[of v]) (use assms(2) in simp_all)
  moreover have "bytearray [0, a, b, v] = Inl ValueError" for a b
    by (rule bytearray_ValueError[of v]) (use assms(2) in simp_all)
  ultimately show ?thesis
    using assms(1) by (simp add: emit_run_def)
qed

lemma encode_rle_2d:
  assumes "shape bitmap = [h, w]" "2 \<le> h" "2 \<le> w"
  shows "encode_rle bitmap = encode_loop (flat bitmap) [h, w] 0 []"
  using assms by (simp add: encode_rle_def squeeze_def ravel_def)

text \<open>
  Claim C2, amended. \<^verbatim>\<open>bitmap_to_ods\<close> fails its assertion, before anything is encoded,
  when the element type is not \<^verbatim>\<open>uint8\<close>. \<^verbatim>\<open>encode_rle\<close> itself checks neither the
  element type nor the width: a bitmap of at least two rows and two columns, of any width
  and element type, whose elements are in 0..255 is encoded; what is refused, with
  \<^verbatim>\<open>ValueError\<close>, is a first element outside 0..255.
\<close>

theorem encoder_input_checks:
  "(dtype bitmap \<noteq> UInt8 \<longrightarrow>
      bitmap_to_ods from_scratch bitmap oid o_vn = Inl AssertionError) \<and>
   (shape bitmap = [h, w] \<and> 2 \<le> h \<and> 2 \<le> w \<and> length (flat bitmap) = h * w \<and>
    (\<forall>v\<in>set (flat bitmap). 0 \<le> v \<and> v < 256) \<longrightarrow>
      (\<exists>rle_data. encode_rle bitmap = Inr rle_data)) \<and>
   (shape bitmap = [h, w] \<and> 2 \<le> h \<and> 2 \<le> w \<and> length (flat bitmap) = h * w \<and>
    flat bitmap ! 0 \<noteq> 0 \<and> \<not> (0 \<le> flat bitmap ! 0 \<and> flat bitmap ! 0 < 256) \<longrightarrow>
      encode_rle bitmap = Inl ValueError)"
proof -
  have 1: "bitmap_to_ods from_scratch bitmap oid o_vn = Inl AssertionError"
    if "dtype bitmap \<noteq> UInt8"
    using that by (simp add: bitmap_to_ods_def)
  have 2: "\<exists>rle_data. encode_rle bitmap = Inr rle_data"
    if "shape bitmap = [h, w] \<and> 2 \<le> h \<and> 2 \<le> w \<and> length (flat bitmap) = h * w \<and>
      (\<forall>v\<in>set (flat bitmap). 0 \<le> v \<and> v < 256)"
    using encode_decode_2d[of bitmap h w] that by blast
  have 3: "encode_rle bitmap = Inl ValueError"
    if a: "shape bitmap = [h, w] \<and> 2 \<le> h \<and> 2 \<le> w \<and> length (flat bitmap) = h * w \<and>
      flat bitmap ! 0 \<noteq> 0 \<and> \<not> (0 \<le> flat bitmap ! 0 \<and> flat bitmap ! 0 < 256)"
  proof -
    have shp: "shape_at [h, w] 1 = Inr w"
      by (simp add: shape_at_def)
    have len: "length (flat bitmap) = h * w" using a by simp
    have "0 < h" "0 < w" using a by simp_all
    then have i: "0 < h * w" by simp
    obtain k b where scan: "scan_run (flat bitmap) [h, w] 0 1 = Inr (k, b)" and k: "1 \<le> k"
      using scan_run_at[OF shp len i] by blast
    have emit: "emit_run (flat bitmap ! 0) k = Inl ValueError"
      by (rule emit_run_ValueError) (use a k in simp_all)
    have "encode_loop (flat bitmap) [h, w] 0 [] = Inl ValueError"
      using i len scan emit by (subst encode_loop.simps) simp
    then show ?thesis
      using a by (simp add: encode_rle_2d)
  qed
  from 1 2 3 show ?thesis by blast
qed

theorem encoder_input_checks_witness:
  "bitmap_to_ods (\<lambda>oid o_vn width height data. data)
     \<lparr>dtype = Int64, shape = [2, 2], flat = [1, 2, 3, 4]\<rparr> 1 None = Inl AssertionError \<and>
   (\<exists>rle_data. encode_rle \<lparr>dtype = Int64, shape = [2, 2], flat = [1, 2, 3, 4]\<rparr> = Inr rle_data) \<and>
   encode_rle \<lparr>dtype = Int64, shape = [2, 2], flat = [300, 2, 3, 4]\<rparr> = Inl ValueError"
proof -
  note t1 = encoder_input_checks[of "\<lparr>dtype = Int64, shape = [2, 2], flat = [1, 2, 3, 4]\<rparr>"
      "\<lambda>oid o_vn width height data. data" 1 None 2 2]
  note t2 = encoder_input_checks[of "\<lparr>dtype = Int64, shape = [2, 2], flat = [300, 2, 3, 4]\<rparr>"
      "\<lambda>oid o_vn width height data. data" 1 None 2 2]
  have a: "bitmap_to_ods (\<lambda>oid o_vn width height data. data)
     \<lparr>dtype = Int64, shape = [2, 2], flat = [1, 2, 3, 4]\<rparr> 1 None = Inl AssertionError"
    using t1[THEN conjunct1] by simp
  have b: "\<exists>rle_data. encode_rle \<lparr>dtype = Int64, shape = [2, 2], flat = [1, 2, 3, 4]\<rparr> = Inr rle_data"
    using t1[THEN conjunct2, THEN conjunct1] by simp
  have c: "encode_rle \<lparr>dtype = Int64, shape = [2, 2], flat = [300, 2, 3, 4]\<rparr> = Inl ValueError"
    using t2[THEN conjunct2, THEN conjunct2] by simp
  from a b c show ?thesis by blast
qed

text \<open>
  Claim C2 as stated fails: a bitmap of element type \<^verbatim>\<open>int64\<close> is encoded, and so is one
  of width 16384, whose rows of 16384 transparent pixels become a run of 16383 and a run
  of 1.
\<close>

theorem encoder_input_checks_counterexample:
  "encode_rle \<lparr>dtype = Int64, shape = [2, 2], flat = [1, 2, 3, 4]\<rparr> =
     Inr [1, 2, 0, 0, 3, 4, 0, 0] \<and>
   encode_rle \<lparr>dtype = UInt8, shape = [2, 16384], flat = replicate 32768 0\<rparr> =
     Inr [0, 0x7F, 0xFF, 0, 1, 0, 0, 0, 0x7F, 0xFF, 0, 1, 0, 0]"
proof -
  let ?fp = "replicate 32768 (0::int)"
  have shp: "shape_at [2, 16384] 1 = Inr 16384"
    by (simp add: shape_at_def)
  have len: "length ?fp = 2 * 16384"
    by simp
  have long: "emit_run 0 16383 = Inr [0, 0x7F, 0xFF]"
    by code_simp
  have short: "emit_run 0 1 = Inr [0, 1]"
    by code_simp
  have 1: "encode_loop ?fp [2, 16384] 0 [] = encode_loop ?fp [2, 16384] 16383 [0, 0x7F, 0xFF]"
    using encode_loop_run[OF shp len, of 0 16383 0 "[0, 0x7F, 0xFF]" "[]"] long
    by (simp add: line_end_def)
  have 2: "encode_loop ?fp [2, 16384] 16383 [0, 0x7F, 0xFF] =
      encode_loop ?fp [2, 16384] 16384 [0, 0x7F, 0xFF, 0, 1, 0, 0]"
    using encode_loop_run[OF shp len, of 16383 1 0 "[0, 1]" "[0, 0x7F, 0xFF]"] short
    by (simp add: line_end_def)
  have 3: "encode_loop ?fp [2, 16384] 16384 [0, 0x7F, 0xFF, 0, 1, 0, 0] =
      encode_loop ?fp [2, 16384] 32767 [0, 0x7F, 0xFF, 0, 1, 0, 0, 0, 0x7F, 0xFF]"
    using encode_loop_run[OF shp len, of 16384 16383 0 "[0, 0x7F, 0xFF]" "[0, 0x7F, 0xFF, 0, 1, 0, 0]"] long
    by (simp add: line_end_def)
  have 4: "encode_loop ?fp [2, 16384] 32767 [0, 0x7F, 0xFF, 0, 1, 0, 0, 0, 0x7F, 0xFF] =
      encode_loop ?fp [2, 16384] 32768 [0, 0x7F, 0xFF, 0, 1, 0, 0, 0, 0x7F, 0xFF, 0, 1, 0, 0]"
    using encode_loop_run[OF shp len, of 32767 1 0 "[0, 1]" "[0, 0x7F, 0xFF, 0, 1, 0, 0, 0, 0x7F, 0xFF]"] short
    by (simp add: line_end_def)
  have 5: "encode_loop ?fp [2, 16384] 32768 [0, 0x7F, 0xFF, 0, 1, 0, 0, 0, 0x7F, 0xFF, 0, 1, 0, 0] =
      Inr [0, 0x7F, 0xFF, 0, 1, 0, 0, 0, 0x7F, 0xFF, 0, 1, 0, 0]"
    by (rule encode_loop_done) simp
  have "encode_loop ?fp [2, 16384] 0 [] = Inr [0, 0x7F, 0xFF, 0, 1, 0, 0, 0, 0x7F, 0xFF, 0, 1, 0, 0]"
    by (simp only: 1 2 3 4 5)
  then have wide: "encode_rle \<lparr>dtype = UInt8, shape = [2, 16384], flat = ?fp\<rparr> =
      Inr [0, 0x7F, 0xFF, 0, 1, 0, 0, 0, 0x7F, 0xFF, 0, 1, 0, 0]"
    by (simp add: encode_rle_def squeeze_def ravel_def)
  have "encode_rle \<lparr>dtype = Int64, shape = [2, 2], flat = [1, 2, 3, 4]\<rparr> =
      Inr [1, 2, 0, 0, 3, 4, 0, 0]"
    by (simp add: encode_rle_def squeeze_def ravel_def encode_loop.simps scan_run.simps
        shape_at_def emit_run_def bytearray_def line_end_def)
  with wide show ?thesis by blast
qed

end
